theory Spec2Isabelle
  imports Main "HOL-Library.Multiset"
begin

section \<open>Strings and the two annotation patterns\<close>

text \<open>
  A JavaScript string is modelled as a HOL \<open>string\<close>; a \<open>char\<close> stands for a
  code unit below 256. The class \<open>\s\<close> of a JavaScript regular expression contains, in
  that range, TAB, LF, VT, FF, CR, SPACE and NBSP; \<open>[a-zA-Z]\<close> is the ASCII letters.
\<close>

definition is_space :: "char \<Rightarrow> bool" where
  "is_space c = (of_char c \<in> set [9, 10, 11, 12, 13, 32, 160 :: nat])"

definition is_alpha :: "char \<Rightarrow> bool" where
  "is_alpha c = ((97 \<le> (of_char c :: nat) \<and> (of_char c :: nat) \<le> 122)
               \<or> (65 \<le> (of_char c :: nat) \<and> (of_char c :: nat) \<le> 90))"

text \<open>
  A backtracking matcher in continuation-passing style, for the fragment the two
  patterns use. \<open>re_star p k\<close> is the greedy \<open>p*\<close>: it first tries to consume one more
  character of class \<open>p\<close> and falls back to the continuation \<open>k\<close> only when the longer
  attempt fails. \<open>re_lit l k\<close> matches the literal text \<open>l\<close>. Both patterns start with
  \<open>^\<close> and carry no flag, so a match can only begin at index 0.
\<close>

fun re_star :: "(char \<Rightarrow> bool) \<Rightarrow> (string \<Rightarrow> 'a option) \<Rightarrow> string \<Rightarrow> 'a option" where
  "re_star p k [] = k []"
| "re_star p k (c # cs) =
     (if p c then (case re_star p k cs of Some r \<Rightarrow> Some r | None \<Rightarrow> k (c # cs))
      else k (c # cs))"

definition re_lit :: "string \<Rightarrow> (string \<Rightarrow> 'a option) \<Rightarrow> string \<Rightarrow> 'a option" where
  "re_lit l k s = (if take (length l) s = l then k (drop (length l) s) else None)"

text \<open>
  \<open>REPR_ASSERTION_RE = /^\s*=> /\<close>. The result of a successful match is the text
  that follows the match.
\<close>

definition REPR_ASSERTION_RE :: "string \<Rightarrow> string option" where
  "REPR_ASSERTION_RE s = re_star is_space (re_lit ''=> '' Some) s"

text \<open>
  \<open>ERR_ASSSERTION_RE = /^\s*([a-zA-Z]*Error): /\<close>. The result of a successful match
  is group 1 together with the text that follows the match.
\<close>

definition ERR_ASSSERTION_RE :: "string \<Rightarrow> (string \<times> string) option" where
  "ERR_ASSSERTION_RE s =
     re_star is_space
       (\<lambda>s1. re_star is_alpha
          (re_lit ''Error''
             (\<lambda>s3. re_lit '': ''
                      (\<lambda>s4. Some (take (length s1 - length s3) s1, s4)) s3)) s1) s"

text \<open>
  \<open>firstLine.replace(RE, '')\<close> for an anchored pattern without the global flag: the
  match, when there is one, starts at index 0 and is deleted; otherwise the string is
  returned as it is.
\<close>

definition replace_REPR :: "string \<Rightarrow> string" where
  "replace_REPR s = (case REPR_ASSERTION_RE s of None \<Rightarrow> s | Some rest \<Rightarrow> rest)"

definition replace_ERR :: "string \<Rightarrow> string" where
  "replace_ERR s = (case ERR_ASSSERTION_RE s of None \<Rightarrow> s | Some (name, rest) \<Rightarrow> rest)"

text \<open>\<open>lines.join('\n')\<close>\<close>

fun join_lines :: "string list \<Rightarrow> string" where
  "join_lines [] = []"
| "join_lines [l] = l"
| "join_lines (l # m # ls) = l @ [CHR 0x0A] @ join_lines (m # ls)"

section \<open>Syntax trees\<close>

text \<open>
  A Babel node has a type, child nodes, optional trailing comments and, once the
  rewriter has produced it, the marker property \<open>__TESTDOC_SEEN\<close>. The children are
  listed in the order in which the traversal visits them; an expression statement has
  one child, its \<open>expression\<close>. The node types the compiler itself builds are
  constructors of \<open>kind\<close>; every other node type is \<open>Other\<close> with its type name.
\<close>

datatype JSASTComment = Comment (comment_value: string)

datatype kind =
    ExpressionStatement
  | ImportDeclaration string
  | ImportNamespaceSpecifier
  | ImportDefaultSpecifier
  | CallExpression
  | MemberExpression
  | AwaitExpression
  | ArrowFunctionExpression bool
  | FunctionExpression bool
  | BlockStatement
  | Identifier string
  | StringLiteral string
  | Program
  | Undefined
  | Other string

datatype node =
  Node (kind: kind) (children: "node list")
       (trailingComments: "JSASTComment list option") (TESTDOC_SEEN: bool)

text \<open>A freshly built node: no comments, no marker.\<close>

definition mk :: "kind \<Rightarrow> node list \<Rightarrow> node" where
  "mk k cs = Node k cs None False"

definition undefined_node :: node where
  "undefined_node = mk Undefined []"

definition isExpressionStatement :: "node \<Rightarrow> bool" where
  "isExpressionStatement n = (kind n = ExpressionStatement)"

definition isImportDeclaration :: "node \<Rightarrow> bool" where
  "isImportDeclaration n = (case kind n of ImportDeclaration src \<Rightarrow> True | _ \<Rightarrow> False)"

text \<open>\<open>node.expression\<close>; reading an absent property gives \<open>undefined\<close>.\<close>

definition expression :: "node \<Rightarrow> node" where
  "expression n = (case children n of [] \<Rightarrow> undefined_node | e # _ \<Rightarrow> e)"

definition stringLiteral :: "string \<Rightarrow> node" where
  "stringLiteral s = mk (StringLiteral s) []"

definition mk_identifier :: "string \<Rightarrow> node" where
  "mk_identifier s = mk (Identifier s) []"

definition runtime_member :: "string \<Rightarrow> node" where
  "runtime_member f = mk MemberExpression [mk_identifier ''__MochaDoctestRuntime'', mk_identifier f]"

section \<open>Annotation detection\<close>

datatype assertion = Repr | Error

text \<open>\<open>findAssertion\<close>; the result \<open>false\<close> is \<open>None\<close>.\<close>

definition findAssertion :: "node \<Rightarrow> assertion option" where
  "findAssertion n =
     (if isExpressionStatement n then
        (case trailingComments n of
           None \<Rightarrow> None
         | Some [] \<Rightarrow> None
         | Some (c # cs) \<Rightarrow>
             (let firstLine = comment_value c in
              if REPR_ASSERTION_RE firstLine \<noteq> None then Some Repr
              else if ERR_ASSSERTION_RE firstLine \<noteq> None then Some Error
              else None))
      else None)"

section \<open>Expectation text\<close>

datatype expectation = ReprExpectation node | ErrorExpectation node node

datatype js_error = TypeError | SyntaxError string

text \<open>
  \<open>parseExpectationFromNode\<close>. Reading \<open>trailingComments[0].value\<close> of a node
  without comments, or group 1 of a failed match, throws a \<open>TypeError\<close>.
\<close>

definition restLines :: "JSASTComment list \<Rightarrow> string list" where
  "restLines cs = map (\<lambda>c. drop 1 (comment_value c)) (drop 1 cs)"

definition parseExpectationFromNode :: "node \<Rightarrow> assertion \<Rightarrow> js_error + expectation" where
  "parseExpectationFromNode n a =
     (case trailingComments n of
        None \<Rightarrow> Inl TypeError
      | Some [] \<Rightarrow> Inl TypeError
      | Some (c # cs) \<Rightarrow>
          (let firstLine = comment_value c; rest = restLines (c # cs) in
           case a of
             Repr \<Rightarrow>
               Inr (ReprExpectation (stringLiteral (join_lines (replace_REPR firstLine # rest))))
           | Error \<Rightarrow>
               (case ERR_ASSSERTION_RE firstLine of
                  None \<Rightarrow> Inl TypeError
                | Some (name, after) \<Rightarrow>
                    Inr (ErrorExpectation (stringLiteral name)
                           (stringLiteral (join_lines (replace_ERR firstLine # rest)))))))"

section \<open>The visitor\<close>

text \<open>
  The statement templates of the visitor. The Repr template is the statement
  \<open>__MochaDoctestRuntime.assertRepr(e, "repr");\<close>. The Error template is the first
  statement of the body of the dummy function, that is
  \<open>await __MochaDoctestRuntime.assertError(async () => e, "name", "message");\<close>.
\<close>

definition assertRepr_stmt :: "node \<Rightarrow> node \<Rightarrow> node" where
  "assertRepr_stmt e repr =
     mk ExpressionStatement [mk CallExpression [runtime_member ''assertRepr'', e, repr]]"

definition assertError_stmt :: "node \<Rightarrow> node \<Rightarrow> node \<Rightarrow> node" where
  "assertError_stmt e name message =
     mk ExpressionStatement
       [mk AwaitExpression
          [mk CallExpression
             [runtime_member ''assertError'', mk (ArrowFunctionExpression True) [e],
              name, message]]]"

definition mark_seen :: "node \<Rightarrow> node" where
  "mark_seen n = Node (kind n) (children n) (trailingComments n) True"

text \<open>
  What one call of \<open>enter\<close> does to the path it is given: it replaces the node
  (\<open>path.replaceWithMultiple\<close>), removes it after pushing it on \<open>importList\<close>
  (\<open>path.remove\<close>), leaves it alone, or throws.
\<close>

datatype action = Replace node | Remove | Skip | Throw js_error

definition enter :: "node \<Rightarrow> action" where
  "enter n =
     (case findAssertion n of
        Some a \<Rightarrow>
          (if \<not> TESTDOC_SEEN n then
             (case parseExpectationFromNode n a of
                Inl e \<Rightarrow> Throw e
              | Inr (ReprExpectation repr) \<Rightarrow>
                  Replace (mark_seen (assertRepr_stmt (expression n) repr))
              | Inr (ErrorExpectation name message) \<Rightarrow>
                  Replace (mark_seen (assertError_stmt (expression n) name message)))
           else if isImportDeclaration n then Remove else Skip)
      | None \<Rightarrow> if isImportDeclaration n then Remove else Skip)"


section \<open>The traversal\<close>

text \<open>
  \<open>path.replaceWithMultiple\<close> gives the replacement the comments of the node it
  replaces: its trailing comments become its own followed by those of the replaced
  node. The comment objects of a parsed tree are pairwise different, so none of them is
  dropped as a duplicate.
\<close>

definition comments_of :: "node \<Rightarrow> JSASTComment list" where
  "comments_of n = (case trailingComments n of None \<Rightarrow> [] | Some cs \<Rightarrow> cs)"

definition inheritTrailingComments :: "node \<Rightarrow> node \<Rightarrow> node" where
  "inheritTrailingComments child parent =
     Node (kind child) (children child) (Some (comments_of child @ comments_of parent))
       (TESTDOC_SEEN child)"

text \<open>
  \<open>path.addComments("trailing", comments)\<close> of the traversal library: nothing
  happens without comments, otherwise they are appended to the trailing comments of
  the node. \<open>path.remove()\<close> calls it (through \<open>shareCommentsWithSiblings\<close>) with the
  leading comments of the removed node, on the node before the removed one, or on the
  node after it when there is none before.
\<close>

definition addComments_trailing :: "JSASTComment list option \<Rightarrow> node \<Rightarrow> node" where
  "addComments_trailing comments n =
     (case comments of
        None \<Rightarrow> n
      | Some cs \<Rightarrow> Node (kind n) (children n) (Some (comments_of n @ cs)) (TESTDOC_SEEN n))"

text \<open>A node after its children have been rewritten in place.\<close>

definition set_children :: "node \<Rightarrow> node list \<Rightarrow> node" where
  "set_children n cs = Node (kind n) cs (trailingComments n) (TESTDOC_SEEN n)"

text \<open>
  Two measures for the termination of the traversal: the number of annotated statements
  of a tree that do not carry the marker, and the number of its nodes.
\<close>

fun pending :: "node \<Rightarrow> nat" where
  "pending (Node k cs tc s) =
     (if findAssertion (Node k [] tc s) \<noteq> None \<and> \<not> s then 1 else 0) + sum_list (map pending cs)"

fun nsize :: "node \<Rightarrow> nat" where
  "nsize (Node k cs tc s) = 1 + sum_list (map nsize cs)"

definition queue_pending :: "(nat \<times> node) list \<Rightarrow> nat" where
  "queue_pending q = sum_list (map (\<lambda>(i, n). pending n) q)"

definition queue_size :: "(nat \<times> node) list \<Rightarrow> nat" where
  "queue_size q = sum_list (map (\<lambda>(i, n). 2 * nsize n) q)"

lemma findAssertion_children: "findAssertion (Node k cs tc s) = findAssertion (Node k cs' tc s')"
  by (simp add: findAssertion_def isExpressionStatement_def)

lemma pending_children: "sum_list (map pending (children n)) \<le> pending n"
  by (cases n) simp

lemma enter_no_throw: "enter n \<noteq> Throw e"
  by (auto simp: enter_def findAssertion_def parseExpectationFromNode_def Let_def
      split: option.splits list.splits if_splits assertion.splits sum.splits expectation.splits)

lemma pending_expression: "pending (expression n) \<le> sum_list (map pending (children n))"
  by (cases "children n") (simp_all add: expression_def undefined_node_def mk_def
      findAssertion_def isExpressionStatement_def)

lemma enter_Replace_pending:
  assumes "enter n = Replace r"
  shows "pending (inheritTrailingComments r n) < pending n"
proof -
  from assms have fa: "findAssertion n \<noteq> None" and ns: "\<not> TESTDOC_SEEN n"
    by (auto simp: enter_def split: option.splits if_splits)
  from assms have "pending (inheritTrailingComments r n) = pending (expression n)"
    by (auto simp: enter_def inheritTrailingComments_def mark_seen_def assertRepr_stmt_def
        assertError_stmt_def mk_def runtime_member_def mk_identifier_def stringLiteral_def
        findAssertion_def isExpressionStatement_def parseExpectationFromNode_def Let_def
        split: option.splits if_splits sum.splits expectation.splits list.splits assertion.splits)
  moreover have "pending n = 1 + sum_list (map pending (children n))"
    using fa ns findAssertion_children[of "kind n" "[]" "trailingComments n" "TESTDOC_SEEN n" "children n" "TESTDOC_SEEN n"]
    by (cases n) simp
  ultimately show ?thesis using pending_expression[of n] by simp
qed

lemma nsize_pos: "0 < nsize n"
  by (cases n) simp

lemma queue_pending_enumerate: "queue_pending (enumerate k ns) = sum_list (map pending ns)"
  by (induction ns arbitrary: k) (simp_all add: queue_pending_def)

lemma queue_size_enumerate: "queue_size (enumerate k ns) = sum_list (map (\<lambda>n. 2 * nsize n) ns)"
  by (induction ns arbitrary: k) (simp_all add: queue_size_def)

lemma nsize_children: "sum_list (map (\<lambda>n. 2 * nsize n) (children n)) + 2 = 2 * nsize n"
  by (cases n) (simp add: sum_list_const_mult)

text \<open>
  The traversal of the children of a node, as \<open>babel-traverse\<close> runs it: a queue of
  paths, each with the index of its slot in the container. \<open>enter\<close> is called on the
  node at the head of the queue. A replacement takes the slot of the node it replaces
  and is queued behind the remaining siblings, so the visitor enters it again later; a
  removed node is pushed on \<open>importList\<close> and leaves its slot empty; any other node
  has its children traversed before the next path is visited.
  \<open>traverse_children ns importList\<close> returns the children after the traversal and the
  new \<open>importList\<close>. The model covers nodes held in lists, which is where the parser
  puts the statements of a sample; a replaced statement that is alone in its slot (the
  body of an \<open>if\<close> or of a loop) is wrapped into a block by the library, which the
  model leaves out. Nodes carry no leading comments here, and the removal of a node
  leaves its neighbours as they are. \<open>path.remove()\<close> hands the trailing comments of
  the removed node to a neighbour as leading comments, which the visitor never reads,
  and its leading comments to a neighbour as trailing comments (\<open>addComments_trailing\<close>
  above): the traversal below is that of trees whose import declarations have no
  leading comments.
\<close>

function visit_queue ::
    "(nat \<times> node) list \<Rightarrow> node list list \<Rightarrow> node list \<Rightarrow> js_error + node list list \<times> node list"
  and traverse_children ::
    "node list \<Rightarrow> node list \<Rightarrow> js_error + node list \<times> node list"
where
  "visit_queue [] slots importList = Inr (slots, importList)"
| "visit_queue ((i, n) # queue) slots importList =
     (case enter n of
        Throw e \<Rightarrow> Inl e
      | Replace r \<Rightarrow>
          visit_queue (queue @ [(i, inheritTrailingComments r n)])
            (slots[i := [inheritTrailingComments r n]]) importList
      | Remove \<Rightarrow> visit_queue queue (slots[i := []]) (importList @ [n])
      | Skip \<Rightarrow>
          (case traverse_children (children n) importList of
             Inl e \<Rightarrow> Inl e
           | Inr (cs, il) \<Rightarrow> visit_queue queue (slots[i := [set_children n cs]]) il))"
| "traverse_children ns importList =
     (case visit_queue (enumerate 0 ns) (map (\<lambda>n. [n]) ns) importList of
        Inl e \<Rightarrow> Inl e
      | Inr (slots, il) \<Rightarrow> Inr (concat slots, il))"
  by pat_completeness auto

termination
  apply (relation "(\<lambda>x. case x of Inl (q, sl, il) \<Rightarrow> queue_pending q | Inr (ns, il) \<Rightarrow> sum_list (map pending ns))
       <*mlex*> measure (\<lambda>x. case x of Inl (q, sl, il) \<Rightarrow> queue_size q | Inr (ns, il) \<Rightarrow> 1 + sum_list (map (\<lambda>n. 2 * nsize n) ns))")
  subgoal by (simp add: wf_mlex)
  subgoal for i n queue slots importList r
    by (rule mlex_less) (use enter_Replace_pending[of n r] in \<open>simp add: queue_pending_def\<close>)
  subgoal for i n
    by (rule mlex_leq) (use nsize_pos[of n] in \<open>simp_all add: queue_pending_def queue_size_def\<close>)
  subgoal for i n queue slots importList
    by (rule mlex_leq)
      (use pending_children[of n] nsize_children[of n] in \<open>simp_all add: queue_pending_def queue_size_def\<close>)
  subgoal for i n
    by (rule mlex_leq) (use nsize_pos[of n] in \<open>simp_all add: queue_pending_def queue_size_def\<close>)
  subgoal for ns
    by (rule mlex_leq) (simp_all add: queue_pending_enumerate queue_size_enumerate)
  done


declare traverse_children.simps [simp del]

lemma pending_child: "c \<in> set (children n) \<Longrightarrow> pending c \<le> pending n"
  using pending_children[of n] member_le_sum_list[of "pending c" "map pending (children n)"]
  by force

lemma nsize_child: "c \<in> set (children n) \<Longrightarrow> nsize c < nsize n"
  using member_le_sum_list[of "nsize c" "map nsize (children n)"]
  by (cases n) force

text \<open>
  What stands in the place of a node after the traversal, and the import declarations
  hoisted from below it in document order. \<open>rewritten\<close> serves to state what the
  traversal computes; the traversal itself is \<open>visit_queue\<close>.
\<close>

function rewritten :: "node \<Rightarrow> node list \<times> node list" where
  "rewritten n =
     (case enter n of
        Throw e \<Rightarrow> ([n], [])
      | Replace r \<Rightarrow> rewritten (inheritTrailingComments r n)
      | Remove \<Rightarrow> ([], [n])
      | Skip \<Rightarrow>
          ([set_children n (concat (map (\<lambda>c. fst (rewritten c)) (children n)))],
           concat (map (\<lambda>c. snd (rewritten c)) (children n))))"
  by pat_completeness auto
termination
  apply (relation "pending <*mlex*> measure nsize")
  subgoal by (simp add: wf_mlex)
  subgoal by (rule mlex_less) (rule enter_Replace_pending)
  subgoal by (rule mlex_leq) (simp_all add: pending_child nsize_child)
  subgoal by (rule mlex_leq) (simp_all add: pending_child nsize_child)
  done

declare rewritten.simps [simp del]


text \<open>A tree that holds an import declaration somewhere.\<close>

fun has_import :: "node \<Rightarrow> bool" where
  "has_import (Node k cs tc s) =
     (isImportDeclaration (Node k cs tc s) \<or> (\<exists>c\<in>set cs. has_import c))"


section \<open>Example statements\<close>




text \<open>The statement \<open>y\<close>, without comments.\<close>

definition example_plain_statement :: node where
  "example_plain_statement = mk ExpressionStatement [mk_identifier ''y'']"

section \<open>The document scanner\<close>

text \<open>
  A node of the Markdown tree that \<open>Remark.parse\<close> returns: its type, the language
  tag and the text of a code block, and its children. The parser, the flattening
  \<open>mdast-util-to-string\<close>, the JavaScript parser, the two resolved module paths and the
  package manifests on disk are the environment of a compilation.
\<close>

datatype mdast =
  Mdast (md_type: string) (md_lang: "string option") (md_value: string)
        (md_children: "mdast list")

record packageJSON =
  pkg_name :: "string option"
  pkg_path :: "string option"

record env =
  Remark_parse :: "string \<Rightarrow> mdast"
  mdastToString :: "mdast \<Rightarrow> string"
  Babylon_parse :: "string \<Rightarrow> js_error + node"
  RUNTIME :: string
  POLYFILL :: string
  findPackageJSON :: "string \<Rightarrow> packageJSON option"
  cwd :: string

record options =
  opt_name :: "string option"
  opt_filename :: "string option"

record testCase =
  tc_title :: "string option"
  tc_lang :: "string option"
  tc_value :: string

text \<open>
  Property names that every object literal inherits from \<open>Object.prototype\<close>. Reading
  one of them from an object that has no own property of that name gives the inherited
  function (for \<open>__proto__\<close>, the prototype object), which is truthy.
\<close>

definition Object_prototype_keys :: "string list" where
  "Object_prototype_keys =
     [''constructor'', ''__defineGetter__'', ''__defineSetter__'', ''hasOwnProperty'',
      ''__lookupGetter__'', ''__lookupSetter__'', ''isPrototypeOf'',
      ''propertyIsEnumerable'', ''toString'', ''valueOf'', ''__proto__'',
      ''toLocaleString'']"

definition SUPPORTED_LANG :: "(string \<times> bool) list" where
  "SUPPORTED_LANG = [(''js+test'', True), (''javasctipt+test'', True)]"

text \<open>
  The truth value of \<open>SUPPORTED_LANG[node.lang]\<close>. A block without a tag has
  \<open>lang = null\<close>, which is read as the key \<open>null\<close>.
\<close>

definition SUPPORTED_LANG_lookup :: "string option \<Rightarrow> bool" where
  "SUPPORTED_LANG_lookup lang =
     (let key = (case lang of None \<Rightarrow> ''null'' | Some l \<Rightarrow> l) in
      case map_of SUPPORTED_LANG key of
        Some b \<Rightarrow> b
      | None \<Rightarrow> key \<in> set Object_prototype_keys)"

text \<open>A string or \<open>null\<close> in a condition: \<open>null\<close> and the empty string are falsy.\<close>

definition truthy :: "string option \<Rightarrow> bool" where
  "truthy t = (case t of None \<Rightarrow> False | Some s \<Rightarrow> s \<noteq> [])"

text \<open>
  The callback of \<open>mdastVisitNode\<close> for one code block: \<open>node\<close>, its \<open>index\<close> in
  \<open>parent.children\<close>, and the test cases it pushes. \<open>parent.children[index - 1]\<close> is
  \<open>undefined\<close> for the first child.
\<close>

definition prev_sibling :: "mdast \<Rightarrow> nat \<Rightarrow> mdast option" where
  "prev_sibling parent index =
     (if index = 0 \<or> index - 1 \<ge> length (md_children parent) then None
      else Some (md_children parent ! (index - 1)))"

definition title_of :: "env \<Rightarrow> mdast option \<Rightarrow> string option" where
  "title_of e prev =
     (let title = (case prev of
                     None \<Rightarrow> None
                   | Some p \<Rightarrow> if md_type p = ''paragraph'' then Some (mdastToString e p) else None)
      in case title of
           None \<Rightarrow> None
         | Some t \<Rightarrow> if t \<noteq> [] \<and> last t = CHR '':'' then Some (butlast t) else Some t)"

definition visitor :: "env \<Rightarrow> mdast \<Rightarrow> nat \<Rightarrow> mdast \<Rightarrow> testCase list" where
  "visitor e node index parent =
     (let title = title_of e (prev_sibling parent index) in
      if SUPPORTED_LANG_lookup (md_lang node)
      then [\<lparr>tc_title = title, tc_lang = md_lang node, tc_value = md_value node\<rparr>]
      else [])"

text \<open>
  \<open>mdastVisitNode(node, 'code', visitor)\<close> walks the tree in document order and calls
  the visitor on every node of type \<open>code\<close>; the result lists the test cases in the
  order in which they are pushed. The root that \<open>Remark.parse\<close> returns has the type
  \<open>root\<close>, so the walk starts with its children.
\<close>

lemma enumerate_size: "(i, c) \<in> set (enumerate k cs) \<Longrightarrow> size c < Suc (size_list size cs)"
proof -
  assume "(i, c) \<in> set (enumerate k cs)"
  then have "c \<in> set cs" by (metis enumerate_eq_zip in_set_zipE)
  then have "size c \<le> size_list size cs" by (simp add: size_list_estimation')
  then show ?thesis by simp
qed

function visit_one :: "env \<Rightarrow> mdast \<Rightarrow> nat \<Rightarrow> mdast \<Rightarrow> testCase list" where
  "visit_one e (Mdast t l v cs) index parent =
     (if t = ''code'' then visitor e (Mdast t l v cs) index parent else [])
     @ concat (map (\<lambda>(i, c). visit_one e c i (Mdast t l v cs)) (enumerate 0 cs))"
  by pat_completeness auto
termination
  by (relation "measure (\<lambda>(e, n, i, p). size n)") (auto dest: enumerate_size)

definition mdastVisitNode :: "env \<Rightarrow> mdast \<Rightarrow> testCase list" where
  "mdastVisitNode e root =
     concat (map (\<lambda>(i, c). visit_one e c i root) (enumerate 0 (md_children root)))"


section \<open>Module reference remapping\<close>

text \<open>
  The two functions of Node's \<open>path\<close> module that the hook calls, for POSIX paths.
  \<open>path.dirname\<close> ignores trailing slashes and cuts the path before its last segment;
  \<open>path.relative\<close> resolves both paths against the working directory and climbs from
  the first to the second.
\<close>

definition path_dirname :: "string \<Rightarrow> string" where
  "path_dirname p =
     (if p = [] then ''.''
      else
        let hasRoot = (hd p = CHR ''/'');
            r = dropWhile (\<lambda>c. c \<noteq> CHR ''/'') (dropWhile (\<lambda>c. c = CHR ''/'') (rev (tl p)))
        in if r = [] then (if hasRoot then ''/'' else ''.'')
           else if hasRoot \<and> length r = 1 then ''//''
           else take (length r) p)"

fun split_on :: "char \<Rightarrow> string \<Rightarrow> string list" where
  "split_on d [] = [[]]"
| "split_on d (c # cs) =
     (if c = d then [] # split_on d cs
      else (case split_on d cs of [] \<Rightarrow> [[c]] | w # ws \<Rightarrow> (c # w) # ws))"

fun normalize_segments :: "string list \<Rightarrow> string list \<Rightarrow> string list" where
  "normalize_segments acc [] = rev acc"
| "normalize_segments acc (s # ss) =
     (if s = [] \<or> s = ''.'' then normalize_segments acc ss
      else if s = ''..'' then normalize_segments (tl acc) ss
      else normalize_segments (s # acc) ss)"

definition path_resolve :: "string \<Rightarrow> string \<Rightarrow> string list" where
  "path_resolve wd p =
     normalize_segments []
       (split_on (CHR ''/'') (if p \<noteq> [] \<and> hd p = CHR ''/'' then p else wd @ ''/'' @ p))"

fun strip_common :: "string list \<Rightarrow> string list \<Rightarrow> string list \<times> string list" where
  "strip_common (x # xs) (y # ys) = (if x = y then strip_common xs ys else (x # xs, y # ys))"
| "strip_common xs ys = (xs, ys)"

fun join_slash :: "string list \<Rightarrow> string" where
  "join_slash [] = []"
| "join_slash [s] = s"
| "join_slash (s # t # ss) = s @ ''/'' @ join_slash (t # ss)"

definition path_relative :: "string \<Rightarrow> string \<Rightarrow> string \<Rightarrow> string" where
  "path_relative wd from to =
     (if from = to then []
      else
        let f = path_resolve wd from; t = path_resolve wd to in
        if f = t then []
        else (case strip_common f t of
                (f', t') \<Rightarrow> join_slash (replicate (length f') ''..'' @ t')))"

text \<open>
  The cache object \<open>packageJSONCache\<close>: its own properties map a directory to a
  manifest or to \<open>null\<close>. Reading a property that the object does not own gives the
  member of \<open>Object.prototype\<close> of that name when there is one, and \<open>undefined\<close>
  otherwise. Such a member is a function whose \<open>name\<close> is its own name (\<open>Object\<close>
  for \<open>constructor\<close>), or the prototype object itself for \<open>__proto__\<close>; none has a
  property \<open>__path\<close>. The list \<open>walks\<close> records each directory for which
  \<open>findPackageJSON\<close> is called.
\<close>

datatype js_value = JSUndefined | JSNull | JSObject packageJSON

record resolver_state =
  packageJSONCache :: "string \<rightharpoonup> packageJSON option"
  walks :: "string list"

definition inherited :: "string \<Rightarrow> packageJSON option" where
  "inherited k =
     (if k = ''constructor'' then Some \<lparr>pkg_name = Some ''Object'', pkg_path = None\<rparr>
      else if k = ''__proto__'' then Some \<lparr>pkg_name = None, pkg_path = None\<rparr>
      else if k \<in> set Object_prototype_keys then Some \<lparr>pkg_name = Some k, pkg_path = None\<rparr>
      else None)"

definition cache_get :: "(string \<rightharpoonup> packageJSON option) \<Rightarrow> string \<Rightarrow> js_value" where
  "cache_get c k =
     (case c k of
        Some None \<Rightarrow> JSNull
      | Some (Some p) \<Rightarrow> JSObject p
      | None \<Rightarrow> (case inherited k of Some p \<Rightarrow> JSObject p | None \<Rightarrow> JSUndefined))"

text \<open>\<open>x || '.'\<close> for a string \<open>x\<close>.\<close>

definition or_dot :: "string \<Rightarrow> string" where
  "or_dot x = (if x = [] then ''.'' else x)"

text \<open>\<open>packageJSON.name + '/'\<close>: an absent name is written \<open>undefined\<close>.\<close>

definition name_slash :: "string option \<Rightarrow> string" where
  "name_slash n = (case n of None \<Rightarrow> ''undefined'' | Some s \<Rightarrow> s) @ ''/''"

text \<open>
  \<open>resolveModuleSource(source, filename)\<close>. \<open>path.dirname\<close> of an absent \<open>__path\<close>
  and \<open>length\<close> of an absent \<open>name\<close> throw a \<open>TypeError\<close>.
\<close>

definition resolveModuleSource ::
    "env \<Rightarrow> resolver_state \<Rightarrow> string \<Rightarrow> string \<Rightarrow> (js_error + string) \<times> resolver_state" where
  "resolveModuleSource e st source filename =
     (let dirname = path_dirname filename;
          st1 = (if cache_get (packageJSONCache st) dirname = JSUndefined
                 then \<lparr>packageJSONCache =
                         (packageJSONCache st)(dirname \<mapsto> findPackageJSON e dirname),
                       walks = walks st @ [dirname]\<rparr>
                 else st)
      in case cache_get (packageJSONCache st1) dirname of
           JSObject packageJSON \<Rightarrow>
             if Some source = pkg_name packageJSON then
               (case pkg_path packageJSON of
                  None \<Rightarrow> (Inl TypeError, st1)
                | Some p \<Rightarrow>
                    (Inr (or_dot (path_relative (cwd e) dirname (path_dirname p)) @ ''/''), st1))
             else if take (length (name_slash (pkg_name packageJSON))) source
                       = name_slash (pkg_name packageJSON) then
               (case pkg_path packageJSON of
                  None \<Rightarrow> (Inl TypeError, st1)
                | Some p \<Rightarrow>
                    (case pkg_name packageJSON of
                       None \<Rightarrow> (Inl TypeError, st1)
                     | Some n \<Rightarrow>
                         (Inr (or_dot (path_relative (cwd e) dirname (path_dirname p))
                               @ drop (length n) source), st1)))
             else (Inr source, st1)
         | JSNull \<Rightarrow> (Inr source, st1)
         | JSUndefined \<Rightarrow> (Inr source, st1))"


section \<open>The compiler\<close>

text \<open>The source text handed to the parser: the sample inside a synthetic function.\<close>

definition wrap_source :: "string \<Rightarrow> string" where
  "wrap_source src =
     ''async function testcase() {'' @ [CHR 0x0A] @ ''      '' @ src @ [CHR 0x0A] @ ''    }''"

text \<open>
  \<open>traverse(node, visitor)\<close> visits what is below the root. The parser returns a
  \<open>File\<close> whose only child is the \<open>Program\<close>; the children of a program and of a
  block are its directives followed by its statements (the traversal visits both, in
  this order), and the last child of a function declaration is its body. The property
  \<open>body\<close> of a program or block holds the statements only, so
  \<open>node.program.body[0].body.body\<close> leaves the directives out; it throws a
  \<open>TypeError\<close> when a step is absent.
\<close>

definition isDirective :: "node \<Rightarrow> bool" where
  "isDirective n \<longleftrightarrow> kind n = Other ''Directive''"

definition body_of :: "node \<Rightarrow> node list" where
  "body_of n = filter (\<lambda>c. \<not> isDirective c) (children n)"

definition traverse :: "node \<Rightarrow> node list \<Rightarrow> js_error + node \<times> node list" where
  "traverse root importList =
     (case traverse_children (children root) importList of
        Inl err \<Rightarrow> Inl err
      | Inr (cs, il) \<Rightarrow> Inr (set_children root cs, il))"

definition program_body0_body_body :: "node \<Rightarrow> js_error + node list" where
  "program_body0_body_body root =
     (case children root of
        [] \<Rightarrow> Inl TypeError
      | program # _ \<Rightarrow>
          (case body_of program of
             [] \<Rightarrow> Inl TypeError
           | fn # _ \<Rightarrow>
               (case rev (children fn) of
                  [] \<Rightarrow> Inl TypeError
                | body # _ \<Rightarrow> Inr (body_of body))))"

text \<open>\<open>caseExpression\<close> and the two registration templates.\<close>

definition caseExpression :: "node list \<Rightarrow> bool \<Rightarrow> node" where
  "caseExpression body async = mk (FunctionExpression async) [mk BlockStatement body]"

definition it_stmt :: "string \<Rightarrow> node list \<Rightarrow> node" where
  "it_stmt title body =
     mk ExpressionStatement
       [mk CallExpression [mk_identifier ''it'', stringLiteral title, caseExpression body True]]"

definition describe_stmt :: "string \<Rightarrow> node list \<Rightarrow> node" where
  "describe_stmt title caseList =
     mk ExpressionStatement
       [mk CallExpression
          [mk_identifier ''describe'', stringLiteral title, caseExpression caseList False]]"

text \<open>\<open>testCase.title || 'works'\<close> and \<open>options.name || options.filename || 'Suite'\<close>.\<close>

definition case_title :: "string option \<Rightarrow> string" where
  "case_title t = (if truthy t then (case t of Some s \<Rightarrow> s | None \<Rightarrow> []) else ''works'')"

definition suite_title :: "options \<Rightarrow> string" where
  "suite_title opts =
     (if truthy (opt_name opts) then (case opt_name opts of Some s \<Rightarrow> s | None \<Rightarrow> [])
      else if truthy (opt_filename opts)
      then (case opt_filename opts of Some s \<Rightarrow> s | None \<Rightarrow> [])
      else ''Suite'')"

text \<open>
  The loop over \<open>testCaseList\<close>, with \<open>importList\<close> and \<open>caseList\<close> as its state. An
  exception of the parser leaves the loop and the compilation.
\<close>

fun forEach_testCase ::
    "env \<Rightarrow> testCase list \<Rightarrow> node list \<Rightarrow> node list \<Rightarrow> js_error + node list \<times> node list" where
  "forEach_testCase e [] importList caseList = Inr (importList, caseList)"
| "forEach_testCase e (testCase # rest) importList caseList =
     (case Babylon_parse e (wrap_source (tc_value testCase)) of
        Inl err \<Rightarrow> Inl err
      | Inr node \<Rightarrow>
          (case traverse node importList of
             Inl err \<Rightarrow> Inl err
           | Inr (node', il) \<Rightarrow>
               (case program_body0_body_body node' of
                  Inl err \<Rightarrow> Inl err
                | Inr body \<Rightarrow>
                    forEach_testCase e rest il
                      (caseList @ [it_stmt (case_title (tc_title testCase)) body]))))"

text \<open>The three imports of the preamble and the assembled list of statements.\<close>

definition preamble :: "env \<Rightarrow> node list" where
  "preamble e =
     [mk (ImportDeclaration (POLYFILL e)) [],
      mk (ImportDeclaration (RUNTIME e))
        [mk ImportNamespaceSpecifier [mk_identifier ''__MochaDoctestRuntime'']],
      mk (ImportDeclaration ''assert'') [mk ImportDefaultSpecifier [mk_identifier ''assert'']]]"

definition generate_program :: "env \<Rightarrow> options \<Rightarrow> node list \<Rightarrow> node list \<Rightarrow> node list" where
  "generate_program e opts importList caseList =
     preamble e @ importList @ [describe_stmt (suite_title opts) caseList]"

text \<open>
  \<open>BabelCore.transformFromAst\<close> consults the hook once for every import declaration of
  the program, in order, with the file name of the options (\<open>unknown\<close> when there is
  none), and stores the result as the new module source. The transformations that a
  \<open>.babelrc\<close> adds and the printing of the program are outside this model: the result
  of a compilation is the program with its remapped imports.
\<close>

fun resolve_imports ::
    "env \<Rightarrow> string \<Rightarrow> resolver_state \<Rightarrow> node list \<Rightarrow> js_error + node list \<times> resolver_state" where
  "resolve_imports e filename st [] = Inr ([], st)"
| "resolve_imports e filename st (n # ns) =
     (case kind n of
        ImportDeclaration source \<Rightarrow>
          (case resolveModuleSource e st source filename of
             (Inl err, st') \<Rightarrow> Inl err
           | (Inr source', st') \<Rightarrow>
               (case resolve_imports e filename st' ns of
                  Inl err \<Rightarrow> Inl err
                | Inr (ns', st'') \<Rightarrow>
                    Inr (Node (ImportDeclaration source') (children n) (trailingComments n)
                           (TESTDOC_SEEN n) # ns', st'')))
      | _ \<Rightarrow>
          (case resolve_imports e filename st ns of
             Inl err \<Rightarrow> Inl err
           | Inr (ns', st') \<Rightarrow> Inr (n # ns', st')))"

definition transformFromAst ::
    "env \<Rightarrow> options \<Rightarrow> node list \<Rightarrow> js_error + node list \<times> resolver_state" where
  "transformFromAst e opts program =
     resolve_imports e (case opt_filename opts of None \<Rightarrow> ''unknown'' | Some f \<Rightarrow> f)
       \<lparr>packageJSONCache = Map.empty, walks = []\<rparr> program"

definition compile :: "env \<Rightarrow> string \<Rightarrow> options \<Rightarrow> js_error + node" where
  "compile e source opts =
     (let testCaseList = mdastVisitNode e (Remark_parse e source) in
      case forEach_testCase e testCaseList [] [] of
        Inl err \<Rightarrow> Inl err
      | Inr (importList, caseList) \<Rightarrow>
          (case transformFromAst e opts (generate_program e opts importList caseList) of
             Inl err \<Rightarrow> Inl err
           | Inr (program, st) \<Rightarrow> Inr (mk Program program)))"


section \<open>Import declarations of a tree\<close>

text \<open>
  The import declarations of a tree in document order (import declarations do not
  nest), and the shape that the parser gives every expression statement: one child,
  its expression.
\<close>

fun all_imports :: "node \<Rightarrow> node list" where
  "all_imports (Node k cs tc s) =
     (if isImportDeclaration (Node k cs tc s) then [Node k cs tc s]
      else concat (map all_imports cs))"

fun well_formed :: "node \<Rightarrow> bool" where
  "well_formed (Node k cs tc s) =
     ((k = ExpressionStatement \<longrightarrow> length cs = 1) \<and> (\<forall>c\<in>set cs. well_formed c))"


text \<open>
  What the loop does for one sample: the parser accepts the wrapped text, the traversal
  hoists the import declarations \<open>new\<close>, and the statements \<open>body\<close> of the case hold
  no import declaration.
\<close>

definition sample_ok :: "env \<Rightarrow> testCase \<Rightarrow> node \<times> node list \<times> node list \<Rightarrow> bool" where
  "sample_ok e t x \<longleftrightarrow>
     (case x of (root, body, new) \<Rightarrow>
        Babylon_parse e (wrap_source (tc_value t)) = Inr root
        \<and> mset new = mset (concat (map (\<lambda>c. snd (rewritten c)) (children root)))
        \<and> (\<forall>m\<in>set new. isImportDeclaration m)
        \<and> (\<forall>n\<in>set body. \<not> has_import n))"


text \<open>
  What the transformation does to one statement of the program: an import declaration
  keeps everything but its module source, any other statement is unchanged.
\<close>

definition remapped :: "node \<Rightarrow> node \<Rightarrow> bool" where
  "remapped a b \<longleftrightarrow>
     (case kind a of
        ImportDeclaration src \<Rightarrow>
          (\<exists>src'. b = Node (ImportDeclaration src') (children a) (trailingComments a) (TESTDOC_SEEN a))
      | _ \<Rightarrow> b = a)"


section \<open>An example environment\<close>

text \<open>
  Two samples, each importing a module of its own and each with one annotated
  statement; the trees that the parser returns for their wrapped texts; three
  documents; and a manifest of the package \<open>foo\<close> in \<open>/pkg\<close>.
\<close>

definition example_sample_a :: string where
  "example_sample_a = ''import a from 'a'; a.f() // => 1''"

definition example_sample_b :: string where
  "example_sample_b = ''import b from 'b'; b.g() // TypeError: bad''"

definition example_tree :: "string \<Rightarrow> string \<Rightarrow> string \<Rightarrow> node" where
  "example_tree m f c =
     mk (Other ''File'')
       [mk Program
          [mk (Other ''FunctionDeclaration'')
             [mk_identifier ''testcase'',
              mk BlockStatement
                [mk (ImportDeclaration m) [mk ImportDefaultSpecifier [mk_identifier m]],
                 Node ExpressionStatement
                   [mk CallExpression [mk MemberExpression [mk_identifier m, mk_identifier f]]]
                   (Some [Comment c]) False]]]]"

definition example_parse :: "string \<Rightarrow> js_error + node" where
  "example_parse s =
     (if s = wrap_source example_sample_a then Inr (example_tree ''a'' ''f'' '' => 1'')
      else if s = wrap_source example_sample_b
      then Inr (example_tree ''b'' ''g'' '' TypeError: bad'')
      else Inl (SyntaxError ''Unexpected token''))"

definition example_document :: mdast where
  "example_document =
     Mdast ''root'' None []
       [Mdast ''paragraph'' None ''First sample:'' [],
        Mdast ''code'' (Some ''js+test'') example_sample_a [],
        Mdast ''code'' (Some ''js'') ''let y = 0'' [],
        Mdast ''code'' (Some ''javasctipt+test'') example_sample_b []]"

definition example_broken_document :: mdast where
  "example_broken_document =
     Mdast ''root'' None []
       [Mdast ''code'' (Some ''js+test'') example_sample_a [],
        Mdast ''code'' (Some ''js+test'') ''f(('' [],
        Mdast ''code'' (Some ''js+test'') example_sample_b []]"

definition example_tagged_document :: mdast where
  "example_tagged_document =
     Mdast ''root'' None [] [Mdast ''code'' (Some ''constructor'') example_sample_a []]"

definition example_remark :: "string \<Rightarrow> mdast" where
  "example_remark s =
     (if s = ''example'' then example_document
      else if s = ''broken'' then example_broken_document
      else if s = ''tagged'' then example_tagged_document
      else Mdast ''root'' None [] [])"

definition example_manifests :: "string \<Rightarrow> packageJSON option" where
  "example_manifests d =
     (if d = ''/pkg/docs'' \<or> d = ''/pkg''
      then Some \<lparr>pkg_name = Some ''foo'', pkg_path = Some ''/pkg/package.json''\<rparr>
      else None)"

definition example_env :: env where
  "example_env =
     \<lparr>Remark_parse = example_remark, mdastToString = md_value, Babylon_parse = example_parse,
      RUNTIME = ''/lib/testdoc/runtime.js'', POLYFILL = ''/lib/babel-polyfill/index.js'',
      findPackageJSON = example_manifests, cwd = ''/pkg''\<rparr>"

definition example_options :: options where
  "example_options = \<lparr>opt_name = None, opt_filename = Some ''/pkg/docs/readme.md''\<rparr>"


text \<open>
  The state of the cache during one compilation: the directories walked so far are
  pairwise different, they are the own properties of the cache, and each holds what
  the walk found (\<open>null\<close> when it found nothing).
\<close>

definition cache_inv :: "env \<Rightarrow> resolver_state \<Rightarrow> bool" where
  "cache_inv e st \<longleftrightarrow>
     distinct (walks st)
     \<and> (\<forall>d. d \<in> set (walks st) \<longleftrightarrow> packageJSONCache st d \<noteq> None)
     \<and> (\<forall>d\<in>set (walks st). packageJSONCache st d = Some (findPackageJSON e d))"


section \<open>Code blocks of a document\<close>

text \<open>
  The places of a document tree in document order: every node with each index of its
  children, a child before what is below it. The title that the specification gives
  the block at a place: absent unless the node just before it among the children of
  the same parent is a paragraph, then the flattened text of the paragraph without a
  final colon. The sample the block at a place stands for, and the allow-list test.
\<close>

function positions :: "mdast \<Rightarrow> (mdast \<times> nat) list" where
  "positions (Mdast t l v cs) =
     concat (map (\<lambda>(i, c). (Mdast t l v cs, i) # positions c) (enumerate 0 cs))"
  by pat_completeness auto
termination
  by (relation "measure size") (auto dest: enumerate_size)

definition title_spec :: "env \<Rightarrow> mdast \<Rightarrow> nat \<Rightarrow> string option" where
  "title_spec e parent index =
     (if index = 0 then None
      else if md_type (md_children parent ! (index - 1)) = ''paragraph''
      then (let text = mdastToString e (md_children parent ! (index - 1))
            in Some (if text \<noteq> [] \<and> last text = CHR '':'' then butlast text else text))
      else None)"

definition sample_at :: "env \<Rightarrow> mdast \<times> nat \<Rightarrow> testCase" where
  "sample_at e x =
     (case x of (parent, index) \<Rightarrow>
        \<lparr>tc_title = title_spec e parent index,
         tc_lang = md_lang (md_children parent ! index),
         tc_value = md_value (md_children parent ! index)\<rparr>)"

definition accepted_block :: "mdast \<times> nat \<Rightarrow> bool" where
  "accepted_block x =
     (case x of (parent, index) \<Rightarrow>
        md_type (md_children parent ! index) = ''code''
        \<and> SUPPORTED_LANG_lookup (md_lang (md_children parent ! index)))"

text \<open>
  A document whose code blocks are not children of the root: the first is the only
  child of a block quote that follows a paragraph of the root, the second follows a
  paragraph inside a list item.
\<close>

definition example_nested_document :: mdast where
  "example_nested_document =
     Mdast ''root'' None []
       [Mdast ''paragraph'' None ''Intro:'' [],
        Mdast ''blockquote'' None []
          [Mdast ''code'' (Some ''js+test'') example_sample_a []],
        Mdast ''list'' None []
          [Mdast ''listItem'' None []
             [Mdast ''paragraph'' None ''Nested:'' [],
              Mdast ''code'' (Some ''js+test'') example_sample_b []]]]"

definition example_nested_env :: env where
  "example_nested_env = example_env\<lparr>Remark_parse := \<lambda>s. example_nested_document\<rparr>"

text \<open>
  The import declaration of module \<open>m\<close> in the samples, and the statements that the
  rewriting makes of their annotated statements.
\<close>

definition example_import :: "string \<Rightarrow> node" where
  "example_import m = mk (ImportDeclaration m) [mk ImportDefaultSpecifier [mk_identifier m]]"

definition example_assertion_a :: node where
  "example_assertion_a =
     Node ExpressionStatement
       [mk CallExpression
          [runtime_member ''assertRepr'',
           mk CallExpression [mk MemberExpression [mk_identifier ''a'', mk_identifier ''f'']],
           stringLiteral ''1'']]
       (Some [Comment '' => 1'']) True"

definition example_assertion_b :: node where
  "example_assertion_b =
     Node ExpressionStatement
       [mk AwaitExpression
          [mk CallExpression
             [runtime_member ''assertError'',
              mk (ArrowFunctionExpression True)
                [mk CallExpression [mk MemberExpression [mk_identifier ''b'', mk_identifier ''g'']]],
              stringLiteral ''TypeError'', stringLiteral ''bad'']]]
       (Some [Comment '' TypeError: bad'']) True"







text \<open>
  A tree in which no expression statement holds an import declaration: the import
  declarations of a sample are statements of their own.
\<close>

fun statement_level_imports :: "node \<Rightarrow> bool" where
  "statement_level_imports (Node k cs tc s) =
     ((k = ExpressionStatement \<longrightarrow> (\<forall>c\<in>set cs. \<not> has_import c))
      \<and> (\<forall>c\<in>set cs. statement_level_imports c))"

section \<open>What the two patterns match\<close>

lemma re_star_sound:
  "re_star p k s = Some r \<Longrightarrow> \<exists>pre suf. s = pre @ suf \<and> (\<forall>c\<in>set pre. p c) \<and> k suf = Some r"
proof (induction s)
  case Nil
  then show ?case by simp
next
  case (Cons c cs)
  show ?case
  proof (cases "p c \<and> re_star p k cs \<noteq> None")
    case True
    with Cons.prems have "re_star p k cs = Some r" by (auto split: option.splits)
    from Cons.IH[OF this] obtain pre suf where
      "cs = pre @ suf" "\<forall>c\<in>set pre. p c" "k suf = Some r" by blast
    with True have "c # cs = (c # pre) @ suf \<and> (\<forall>x\<in>set (c # pre). p x) \<and> k suf = Some r"
      by simp
    then show ?thesis by blast
  next
    case False
    with Cons.prems have "k (c # cs) = Some r" by (auto split: option.splits if_splits)
    then have "c # cs = [] @ (c # cs) \<and> (\<forall>x\<in>set []. p x) \<and> k (c # cs) = Some r" by simp
    then show ?thesis by blast
  qed
qed

lemma re_star_complete:
  "(\<forall>c\<in>set pre. p c) \<Longrightarrow> k suf \<noteq> None \<Longrightarrow> re_star p k (pre @ suf) \<noteq> None"
proof (induction pre)
  case Nil
  then show ?case by (cases suf) (auto split: option.splits)
next
  case (Cons c pre)
  then show ?case by (auto split: option.splits)
qed

lemma not_space_eq: "\<not> is_space (CHR ''='')" by (simp add: is_space_def)
lemma not_space_alpha: "is_alpha c \<Longrightarrow> \<not> is_space c" by (auto simp add: is_space_def is_alpha_def)
lemma alpha_Error: "\<forall>c\<in>set ''Error''. is_alpha c" by (simp add: is_alpha_def)
lemma not_alpha_colon: "\<not> is_alpha (CHR '':'')" by (simp add: is_alpha_def)

lemma re_lit_Some: "re_lit l k s = Some r \<longleftrightarrow> (\<exists>t. s = l @ t \<and> k t = Some r)"
  unfolding re_lit_def
  by (metis append_eq_conv_conj option.distinct(1))

lemma REPR_sound:
  assumes "REPR_ASSERTION_RE s = Some rest"
  shows "\<exists>ws. s = ws @ ''=> '' @ rest \<and> (\<forall>c\<in>set ws. is_space c)"
proof -
  from re_star_sound[OF assms[unfolded REPR_ASSERTION_RE_def]]
  obtain pre suf where a: "s = pre @ suf" "\<forall>c\<in>set pre. is_space c" "re_lit ''=> '' Some suf = Some rest"
    by blast
  from a(3) have "suf = ''=> '' @ rest" by (simp add: re_lit_Some)
  with a show ?thesis by blast
qed

lemma split_unique:
  assumes "ws @ x # r = ws' @ x' # r'" "\<forall>c\<in>set ws. P c" "\<forall>c\<in>set ws'. P c" "\<not> P x" "\<not> P x'"
  shows "ws = ws' \<and> x # r = x' # r'"
proof -
  have "takeWhile P (ws @ x # r) = ws" using assms(2,4) by (simp add: takeWhile_tail)
  moreover have "takeWhile P (ws' @ x' # r') = ws'" using assms(3,5) by (simp add: takeWhile_tail)
  ultimately have "ws = ws'" using assms(1) by simp
  with assms(1) show ?thesis by simp
qed

lemma REPR_iff:
  "REPR_ASSERTION_RE s = Some rest \<longleftrightarrow> (\<exists>ws. s = ws @ ''=> '' @ rest \<and> (\<forall>c\<in>set ws. is_space c))"
proof
  assume "REPR_ASSERTION_RE s = Some rest" then show "\<exists>ws. s = ws @ ''=> '' @ rest \<and> (\<forall>c\<in>set ws. is_space c)"
    by (rule REPR_sound)
next
  assume "\<exists>ws. s = ws @ ''=> '' @ rest \<and> (\<forall>c\<in>set ws. is_space c)"
  then obtain ws where s: "s = ws @ ''=> '' @ rest" and ws: "\<forall>c\<in>set ws. is_space c" by blast
  have "re_lit ''=> '' Some (''=> '' @ rest) \<noteq> None" by (simp add: re_lit_def)
  from re_star_complete[of ws is_space "re_lit ''=> '' Some" "''=> '' @ rest", OF ws this] obtain rest' where m: "REPR_ASSERTION_RE s = Some rest'"
    unfolding REPR_ASSERTION_RE_def s by blast
  from REPR_sound[OF m] obtain ws' where s': "s = ws' @ ''=> '' @ rest'" and ws': "\<forall>c\<in>set ws'. is_space c"
    by blast
  from s s' have "ws @ CHR ''='' # (''> '' @ rest) = ws' @ CHR ''='' # (''> '' @ rest')" by simp
  from split_unique[OF this ws ws' not_space_eq not_space_eq] have "rest = rest'" by simp
  with m show "REPR_ASSERTION_RE s = Some rest" by simp
qed


lemma ERR_sound:
  assumes "ERR_ASSSERTION_RE s = Some (name, rest)"
  shows "\<exists>ws pre. s = ws @ pre @ ''Error: '' @ rest \<and> name = pre @ ''Error''
           \<and> (\<forall>c\<in>set ws. is_space c) \<and> (\<forall>c\<in>set pre. is_alpha c)"
proof -
  from re_star_sound[OF assms[unfolded ERR_ASSSERTION_RE_def]]
  obtain ws s1 where a: "s = ws @ s1" "\<forall>c\<in>set ws. is_space c"
    and b: "re_star is_alpha (re_lit ''Error'' (\<lambda>s3. re_lit '': ''
              (\<lambda>s4. Some (take (length s1 - length s3) s1, s4)) s3)) s1 = Some (name, rest)"
    by blast
  from re_star_sound[OF b]
  obtain pre s2 where c: "s1 = pre @ s2" "\<forall>c\<in>set pre. is_alpha c"
    and d: "re_lit ''Error'' (\<lambda>s3. re_lit '': ''
              (\<lambda>s4. Some (take (length s1 - length s3) s1, s4)) s3) s2 = Some (name, rest)"
    by blast
  from d obtain s3 where e: "s2 = ''Error'' @ s3"
    and f: "re_lit '': '' (\<lambda>s4. Some (take (length s1 - length s3) s1, s4)) s3 = Some (name, rest)"
    unfolding re_lit_Some by blast
  from f obtain s4 where g: "s3 = '': '' @ s4" and h: "take (length s1 - length s3) s1 = name" "s4 = rest"
    unfolding re_lit_Some by blast
  from c e g h have "name = pre @ ''Error''" by simp
  moreover from a c e g h have "s = ws @ pre @ ''Error: '' @ rest" by simp
  ultimately show ?thesis using a(2) c(2) by blast
qed

lemma ERR_complete:
  assumes ws: "\<forall>c\<in>set ws. is_space c" and pre: "\<forall>c\<in>set pre. is_alpha c"
  shows "ERR_ASSSERTION_RE (ws @ pre @ ''Error: '' @ rest) \<noteq> None"
proof -
  define k1 :: "string \<Rightarrow> (string \<times> string) option" where
    "k1 = (\<lambda>s1. re_star is_alpha (re_lit ''Error'' (\<lambda>s3. re_lit '': ''
              (\<lambda>s4. Some (take (length s1 - length s3) s1, s4)) s3)) s1)"
  define s1 where "s1 = pre @ ''Error: '' @ rest"
  define k2 :: "string \<Rightarrow> (string \<times> string) option" where
    "k2 = re_lit ''Error'' (\<lambda>s3. re_lit '': ''
              (\<lambda>s4. Some (take (length s1 - length s3) s1, s4)) s3)"
  have "k2 (''Error: '' @ rest) \<noteq> None" by (simp add: re_lit_def k2_def)
  then have "re_star is_alpha k2 (pre @ ''Error: '' @ rest) \<noteq> None"
    using pre by (rule re_star_complete[rotated])
  then have "k1 s1 \<noteq> None" by (simp add: k1_def k2_def s1_def)
  then have "re_star is_space k1 (ws @ s1) \<noteq> None"
    using ws by (rule re_star_complete[rotated])
  then show ?thesis by (simp add: ERR_ASSSERTION_RE_def k1_def s1_def)
qed

lemma ERR_iff:
  "ERR_ASSSERTION_RE s = Some (name, rest) \<longleftrightarrow>
     (\<exists>ws pre. s = ws @ pre @ ''Error: '' @ rest \<and> name = pre @ ''Error''
           \<and> (\<forall>c\<in>set ws. is_space c) \<and> (\<forall>c\<in>set pre. is_alpha c))"
proof
  assume "ERR_ASSSERTION_RE s = Some (name, rest)"
  then show "\<exists>ws pre. s = ws @ pre @ ''Error: '' @ rest \<and> name = pre @ ''Error''
           \<and> (\<forall>c\<in>set ws. is_space c) \<and> (\<forall>c\<in>set pre. is_alpha c)"
    by (rule ERR_sound)
next
  assume "\<exists>ws pre. s = ws @ pre @ ''Error: '' @ rest \<and> name = pre @ ''Error''
           \<and> (\<forall>c\<in>set ws. is_space c) \<and> (\<forall>c\<in>set pre. is_alpha c)"
  then obtain ws pre where s: "s = ws @ pre @ ''Error: '' @ rest" and n: "name = pre @ ''Error''"
    and ws: "\<forall>c\<in>set ws. is_space c" and pre: "\<forall>c\<in>set pre. is_alpha c" by blast
  from ERR_complete[OF ws pre, of rest] s obtain name' rest' where
    m: "ERR_ASSSERTION_RE s = Some (name', rest')" by auto
  from ERR_sound[OF m] obtain ws' pre' where s': "s = ws' @ pre' @ ''Error: '' @ rest'"
    and n': "name' = pre' @ ''Error''"
    and ws': "\<forall>c\<in>set ws'. is_space c" and pre': "\<forall>c\<in>set pre'. is_alpha c" by blast
  obtain x r where xr: "pre @ ''Error: '' @ rest = x # r" "is_alpha x"
    using pre by (cases pre) (auto simp: is_alpha_def)
  obtain x' r' where xr': "pre' @ ''Error: '' @ rest' = x' # r'" "is_alpha x'"
    using pre' by (cases pre') (auto simp: is_alpha_def)
  from s s' xr xr' have "ws @ x # r = ws' @ x' # r'" by simp
  from split_unique[OF this ws ws' not_space_alpha[OF xr(2)] not_space_alpha[OF xr'(2)]]
  have "x # r = x' # r'" by simp
  with xr xr' have "(pre @ ''Error'') @ CHR '':'' # ('' '' @ rest) = (pre' @ ''Error'') @ CHR '':'' # ('' '' @ rest')"
    by simp
  from split_unique[of "pre @ ''Error''" "CHR '':''" "'' '' @ rest" "pre' @ ''Error''" "CHR '':''" "'' '' @ rest'" is_alpha, OF this _ _ not_alpha_colon not_alpha_colon] pre pre'
  have "pre @ ''Error'' = pre' @ ''Error'' \<and> rest = rest'" by (simp add: is_alpha_def)
  with m n n' show "ERR_ASSSERTION_RE s = Some (name, rest)" by simp
qed

lemma REPR_None_iff:
  "REPR_ASSERTION_RE s \<noteq> None \<longleftrightarrow>
     (\<exists>ws rest. s = ws @ ''=> '' @ rest \<and> (\<forall>c\<in>set ws. is_space c))"
  using REPR_iff by (metis not_None_eq)

lemma ERR_None_iff:
  "ERR_ASSSERTION_RE s \<noteq> None \<longleftrightarrow>
     (\<exists>ws pre rest. s = ws @ pre @ ''Error: '' @ rest
         \<and> (\<forall>c\<in>set ws. is_space c) \<and> (\<forall>c\<in>set pre. is_alpha c))"
proof
  assume "ERR_ASSSERTION_RE s \<noteq> None"
  then obtain name rest where "ERR_ASSSERTION_RE s = Some (name, rest)" by auto
  from ERR_sound[OF this] show "\<exists>ws pre rest. s = ws @ pre @ ''Error: '' @ rest
         \<and> (\<forall>c\<in>set ws. is_space c) \<and> (\<forall>c\<in>set pre. is_alpha c)" by blast
next
  assume "\<exists>ws pre rest. s = ws @ pre @ ''Error: '' @ rest
         \<and> (\<forall>c\<in>set ws. is_space c) \<and> (\<forall>c\<in>set pre. is_alpha c)"
  then show "ERR_ASSSERTION_RE s \<noteq> None" using ERR_complete by blast
qed


section \<open>The traversal computes the rewriting\<close>

lemma map_snd_enumerate: "map (\<lambda>(i, n). f n) (enumerate k ns) = map f ns"
  by (induction ns arbitrary: k) simp_all

lemma queue_characterisation:
  "distinct (map fst q) \<Longrightarrow> \<forall>i\<in>fst ` set q. i < length sl \<Longrightarrow>
     \<exists>sl' new. visit_queue q sl il = Inr (sl', il @ new) \<and> length sl' = length sl
        \<and> (\<forall>(i, n)\<in>set q. sl' ! i = fst (rewritten n))
        \<and> (\<forall>j<length sl. j \<notin> fst ` set q \<longrightarrow> sl' ! j = sl ! j)
        \<and> mset new = mset (concat (map (\<lambda>(i, n). snd (rewritten n)) q))"
  and traverse_characterisation:
  "\<exists>new. traverse_children ns il = Inr (concat (map (\<lambda>c. fst (rewritten c)) ns), il @ new)
        \<and> mset new = mset (concat (map (\<lambda>c. snd (rewritten c)) ns))"
proof (induction q sl il and ns il rule: visit_queue_traverse_children.induct)
  case (1 slots importList)
  then show ?case by simp
next
  case (2 i n queue slots importList)
  from "2.prems" have d: "distinct (map fst queue)" and ni: "i \<notin> fst ` set queue"
    and il: "i < length slots" and ql: "\<forall>j\<in>fst ` set queue. j < length slots"
    by auto
  show ?case
  proof (cases "enter n")
    case (Replace r)
    let ?r = "inheritTrailingComments r n"
    have d': "distinct (map fst (queue @ [(i, ?r)]))" using d ni by auto
    have l': "\<forall>j\<in>fst ` set (queue @ [(i, ?r)]). j < length (slots[i := [?r]])" using il ql by auto
    from "2.IH"(1)[OF Replace d' l'] obtain sl' new where
      a: "visit_queue (queue @ [(i, ?r)]) (slots[i := [?r]]) importList = Inr (sl', importList @ new)"
      and b: "length sl' = length slots"
      and c: "\<forall>(j, m)\<in>set (queue @ [(i, ?r)]). sl' ! j = fst (rewritten m)"
      and e: "\<forall>j<length slots. j \<notin> fst ` set (queue @ [(i, ?r)]) \<longrightarrow> sl' ! j = (slots[i := [?r]]) ! j"
      and f: "mset new = mset (concat (map (\<lambda>(i, n). snd (rewritten n)) (queue @ [(i, ?r)])))"
      by auto
    have rw: "rewritten n = rewritten ?r" using Replace by (subst rewritten.simps) simp
    have "visit_queue ((i, n) # queue) slots importList = Inr (sl', importList @ new)"
      using a Replace by simp
    moreover have "\<forall>(j, m)\<in>set ((i, n) # queue). sl' ! j = fst (rewritten m)"
      using c rw by auto
    moreover have "\<forall>j<length slots. j \<notin> fst ` set ((i, n) # queue) \<longrightarrow> sl' ! j = slots ! j"
      using e by auto
    moreover have "mset new = mset (concat (map (\<lambda>(i, n). snd (rewritten n)) ((i, n) # queue)))"
      using f rw by simp
    ultimately show ?thesis using b by blast
  next
    case Remove
    have l': "\<forall>j\<in>fst ` set queue. j < length (slots[i := []])" using ql by auto
    from "2.IH"(2)[OF Remove d l'] obtain sl' new where
      a: "visit_queue queue (slots[i := []]) (importList @ [n]) = Inr (sl', (importList @ [n]) @ new)"
      and b: "length sl' = length slots"
      and c: "\<forall>(j, m)\<in>set queue. sl' ! j = fst (rewritten m)"
      and e: "\<forall>j<length slots. j \<notin> fst ` set queue \<longrightarrow> sl' ! j = (slots[i := []]) ! j"
      and f: "mset new = mset (concat (map (\<lambda>(i, n). snd (rewritten n)) queue))"
      by auto
    have rw: "rewritten n = ([], [n])" using Remove by (subst rewritten.simps) simp
    have "visit_queue ((i, n) # queue) slots importList = Inr (sl', importList @ (n # new))"
      using a Remove by simp
    moreover have "\<forall>(j, m)\<in>set ((i, n) # queue). sl' ! j = fst (rewritten m)"
      using c e ni il rw by auto
    moreover have "\<forall>j<length slots. j \<notin> fst ` set ((i, n) # queue) \<longrightarrow> sl' ! j = slots ! j"
      using e by auto
    moreover have "mset (n # new) = mset (concat (map (\<lambda>(i, n). snd (rewritten n)) ((i, n) # queue)))"
      using f rw by simp
    ultimately show ?thesis using b by blast
  next
    case Skip
    let ?cs = "concat (map (\<lambda>c. fst (rewritten c)) (children n))"
    from "2.IH"(3)[OF Skip] obtain new1 where
      t: "traverse_children (children n) importList = Inr (?cs, importList @ new1)"
      and m1: "mset new1 = mset (concat (map (\<lambda>c. snd (rewritten c)) (children n)))"
      by auto
    have l': "\<forall>j\<in>fst ` set queue. j < length (slots[i := [set_children n ?cs]])" using ql by auto
    from "2.IH"(4)[OF Skip t refl d l'] obtain sl' new where
      a: "visit_queue queue (slots[i := [set_children n ?cs]]) (importList @ new1)
            = Inr (sl', (importList @ new1) @ new)"
      and b: "length sl' = length slots"
      and c: "\<forall>(j, m)\<in>set queue. sl' ! j = fst (rewritten m)"
      and e: "\<forall>j<length slots. j \<notin> fst ` set queue \<longrightarrow> sl' ! j = (slots[i := [set_children n ?cs]]) ! j"
      and f: "mset new = mset (concat (map (\<lambda>(i, n). snd (rewritten n)) queue))"
      by auto
    have rw: "rewritten n = ([set_children n ?cs], concat (map (\<lambda>c. snd (rewritten c)) (children n)))"
      using Skip by (subst rewritten.simps) simp
    have "visit_queue ((i, n) # queue) slots importList = Inr (sl', importList @ (new1 @ new))"
      using a Skip t by simp
    moreover have "\<forall>(j, m)\<in>set ((i, n) # queue). sl' ! j = fst (rewritten m)"
      using c e ni il rw by auto
    moreover have "\<forall>j<length slots. j \<notin> fst ` set ((i, n) # queue) \<longrightarrow> sl' ! j = slots ! j"
      using e by auto
    moreover have "mset (new1 @ new) = mset (concat (map (\<lambda>(i, n). snd (rewritten n)) ((i, n) # queue)))"
      using f m1 rw by simp
    ultimately show ?thesis using b by blast
  next
    case (Throw e)
    then show ?thesis using enter_no_throw by blast
  qed
next
  case (3 ns importList)
  have d: "distinct (map fst (enumerate 0 ns))" by simp
  have l: "\<forall>i\<in>fst ` set (enumerate 0 ns). i < length (map (\<lambda>n. [n]) ns)"
    by (auto simp: in_set_enumerate_eq)
  from "3.IH"[OF d l] obtain sl' new where
      a: "visit_queue (enumerate 0 ns) (map (\<lambda>n. [n]) ns) importList = Inr (sl', importList @ new)"
      and b: "length sl' = length ns"
      and c: "\<forall>(j, m)\<in>set (enumerate 0 ns). sl' ! j = fst (rewritten m)"
      and f: "mset new = mset (concat (map (\<lambda>(i, n). snd (rewritten n)) (enumerate 0 ns)))"
    by auto
  have "sl' = map (\<lambda>c. fst (rewritten c)) ns"
  proof (rule nth_equalityI)
    show "length sl' = length (map (\<lambda>c. fst (rewritten c)) ns)" using b by simp
    fix j assume "j < length sl'"
    then have "(j, ns ! j) \<in> set (enumerate 0 ns)" using b by (simp add: in_set_enumerate_eq)
    with c have "sl' ! j = fst (rewritten (ns ! j))" by blast
    then show "sl' ! j = map (\<lambda>c. fst (rewritten c)) ns ! j" using \<open>j < length sl'\<close> b by simp
  qed
  moreover have "map (\<lambda>(i, n). snd (rewritten n)) (enumerate 0 ns) = map (\<lambda>c. snd (rewritten c)) ns"
    by (rule map_snd_enumerate)
  ultimately show ?case using a f by (simp add: traverse_children.simps)
qed


lemma enter_Skip_settled:
  "pending n = 0 \<Longrightarrow> \<not> isImportDeclaration n \<Longrightarrow> enter n = Skip"
  using findAssertion_children[of "kind n" "[]" "trailingComments n" "TESTDOC_SEEN n" "children n" "TESTDOC_SEEN n"]
  by (cases n) (auto simp: enter_def split: option.splits if_splits)

lemma rewritten_Skip:
  "enter n = Skip \<Longrightarrow>
     rewritten n = ([set_children n (concat (map (\<lambda>c. fst (rewritten c)) (children n)))],
                    concat (map (\<lambda>c. snd (rewritten c)) (children n)))"
  by (subst rewritten.simps) simp

lemma rewritten_Replace:
  "enter n = Replace r \<Longrightarrow> rewritten n = rewritten (inheritTrailingComments r n)"
  by (subst rewritten.simps) simp

lemma rewritten_Remove: "enter n = Remove \<Longrightarrow> rewritten n = ([], [n])"
  by (subst rewritten.simps) simp

lemma settled_fixed:
  "pending n = 0 \<Longrightarrow> \<not> has_import n \<Longrightarrow> rewritten n = ([n], [])"
proof (induction n)
  case (Node k cs tc s)
  have e: "enter (Node k cs tc s) = Skip"
    using Node.prems by (intro enter_Skip_settled) auto
  have "\<forall>c\<in>set cs. rewritten c = ([c], [])"
    using Node by auto
  then have "concat (map (\<lambda>c. fst (rewritten c)) cs) = cs"
    and "concat (map (\<lambda>c. snd (rewritten c)) cs) = []"
    by (induction cs) auto
  then show ?case using rewritten_Skip[OF e] by (simp add: set_children_def)
qed

lemma enter_Replace_seen:
  "enter n = Replace r \<Longrightarrow> TESTDOC_SEEN r \<and> kind r = ExpressionStatement"
  by (auto simp: enter_def mark_seen_def assertRepr_stmt_def assertError_stmt_def mk_def
      split: option.splits if_splits sum.splits expectation.splits)

lemma enter_seen_Skip:
  "TESTDOC_SEEN n \<Longrightarrow> kind n = ExpressionStatement \<Longrightarrow> enter n = Skip"
  by (auto simp: enter_def isImportDeclaration_def split: option.splits)

lemma enter_requeued:
  "enter n = Replace r \<Longrightarrow> enter (inheritTrailingComments r n) = Skip"
  using enter_Replace_seen[of n r]
  by (intro enter_seen_Skip) (auto simp: inheritTrailingComments_def)

lemma pending_0_iff:
  "pending n = 0 \<longleftrightarrow> (findAssertion n = None \<or> TESTDOC_SEEN n) \<and> (\<forall>c\<in>set (children n). pending c = 0)"
  using findAssertion_children[of "kind n" "[]" "trailingComments n" "TESTDOC_SEEN n" "children n" "TESTDOC_SEEN n"]
  by (cases n) auto

lemma has_import_iff:
  "has_import n \<longleftrightarrow> isImportDeclaration n \<or> (\<exists>c\<in>set (children n). has_import c)"
  by (cases n) auto

lemma enter_Skip_cases:
  "enter n = Skip \<Longrightarrow> (findAssertion n = None \<or> TESTDOC_SEEN n) \<and> \<not> isImportDeclaration n"
  by (auto simp: enter_def split: option.splits if_splits sum.splits expectation.splits)

lemma enter_Remove_import: "enter n = Remove \<Longrightarrow> isImportDeclaration n"
  by (auto simp: enter_def split: option.splits if_splits sum.splits expectation.splits)

lemma rewritten_settled:
  "\<forall>m\<in>set (fst (rewritten n)). pending m = 0 \<and> \<not> has_import m"
proof (induction n rule: rewritten.induct)
  case (1 n)
  show ?case
  proof (cases "enter n")
    case (Replace r)
    with 1(1) show ?thesis by (simp add: rewritten_Replace)
  next
    case Remove
    then show ?thesis by (simp add: rewritten_Remove)
  next
    case Skip
    let ?cs = "concat (map (\<lambda>c. fst (rewritten c)) (children n))"
    from 1(2)[OF Skip] have cs: "\<forall>m\<in>set ?cs. pending m = 0 \<and> \<not> has_import m" by auto
    from enter_Skip_cases[OF Skip] have
      "(findAssertion (set_children n ?cs) = None \<or> TESTDOC_SEEN (set_children n ?cs))
        \<and> \<not> isImportDeclaration (set_children n ?cs)"
      using findAssertion_children[of "kind n" "?cs" "trailingComments n" "TESTDOC_SEEN n" "children n" "TESTDOC_SEEN n"]
      by (cases n) (auto simp: set_children_def isImportDeclaration_def)
    with cs have "pending (set_children n ?cs) = 0 \<and> \<not> has_import (set_children n ?cs)"
      unfolding pending_0_iff[of "set_children n ?cs"] has_import_iff[of "set_children n ?cs"]
      by (simp add: set_children_def)
    then show ?thesis by (simp add: rewritten_Skip[OF Skip])
  next
    case (Throw e)
    then show ?thesis using enter_no_throw by blast
  qed
qed

lemma traverse_children_result:
  "\<exists>new. traverse_children ns il = Inr (concat (map (\<lambda>c. fst (rewritten c)) ns), il @ new)
        \<and> mset new = mset (concat (map (\<lambda>c. snd (rewritten c)) ns))"
  by (rule traverse_characterisation)

lemma traverse_settled:
  assumes "\<forall>n\<in>set ns. pending n = 0 \<and> \<not> has_import n"
  shows "traverse_children ns il = Inr (ns, il)"
proof -
  from assms have "\<forall>n\<in>set ns. rewritten n = ([n], [])" by (simp add: settled_fixed)
  then have "concat (map (\<lambda>c. fst (rewritten c)) ns) = ns"
    and "concat (map (\<lambda>c. snd (rewritten c)) ns) = []"
    by (induction ns) auto
  with traverse_children_result[of ns il] show ?thesis by auto
qed


lemma findAssertion_Some_kind: "findAssertion n = Some a \<Longrightarrow> kind n = ExpressionStatement"
  by (auto simp: findAssertion_def isExpressionStatement_def split: if_splits)






lemma mk_sel:
  "kind (mk k cs) = k" "children (mk k cs) = cs" "trailingComments (mk k cs) = None"
  "TESTDOC_SEEN (mk k cs) = False" "set_children (mk k cs) cs' = mk k cs'"
  "set_children (Node k cs tc s) cs' = Node k cs' tc s"
  by (simp_all add: mk_def set_children_def)




lemma all_imports_eq:
  "all_imports n = (if isImportDeclaration n then [n] else concat (map all_imports (children n)))"
  by (cases n) simp

lemma well_formed_eq:
  "well_formed n \<longleftrightarrow> (kind n = ExpressionStatement \<longrightarrow> length (children n) = 1)
      \<and> (\<forall>c\<in>set (children n). well_formed c)"
  by (cases n) simp

lemma isImportDeclaration_kind:
  "isImportDeclaration (Node k cs tc s) = isImportDeclaration (Node k cs' tc' s')"
  by (simp add: isImportDeclaration_def)

lemma enter_Replace_shape:
  assumes "enter n = Replace r"
  shows "kind n = ExpressionStatement \<and> kind r = ExpressionStatement
         \<and> (\<exists>f lits.
               (children r = [mk CallExpression (runtime_member f # expression n # lits)]
                \<or> children r = [mk AwaitExpression [mk CallExpression
                      (runtime_member f # mk (ArrowFunctionExpression True) [expression n] # lits)]])
               \<and> (\<forall>l\<in>set lits. \<exists>s. l = stringLiteral s))"
proof -
  from assms obtain a where fa: "findAssertion n = Some a"
    by (auto simp: enter_def split: option.splits if_splits)
  then have k: "kind n = ExpressionStatement" by (rule findAssertion_Some_kind)
  from assms fa consider
    (R) repr where "r = mark_seen (assertRepr_stmt (expression n) repr)"
      "parseExpectationFromNode n a = Inr (ReprExpectation repr)"
    | (E) name message where "r = mark_seen (assertError_stmt (expression n) name message)"
      "parseExpectationFromNode n a = Inr (ErrorExpectation name message)"
    by (auto simp: enter_def split: if_splits sum.splits expectation.splits)
  then show ?thesis
  proof cases
    case R
    from R(2) obtain s where "repr = stringLiteral s"
      by (auto simp: parseExpectationFromNode_def Let_def
          split: option.splits list.splits assertion.splits)
    with R(1) have "kind r = ExpressionStatement"
      and "children r = [mk CallExpression (runtime_member ''assertRepr'' # expression n # [stringLiteral s])]"
      and "\<forall>l\<in>set [stringLiteral s]. \<exists>s. l = stringLiteral s"
      by (auto simp: mark_seen_def assertRepr_stmt_def mk_sel)
    with k show ?thesis by blast
  next
    case E
    from E(2) obtain s t where "name = stringLiteral s" "message = stringLiteral t"
      by (auto simp: parseExpectationFromNode_def Let_def
          split: option.splits list.splits assertion.splits)
    with E(1) have "kind r = ExpressionStatement"
      and "children r = [mk AwaitExpression [mk CallExpression
             (runtime_member ''assertError'' # mk (ArrowFunctionExpression True) [expression n]
                # [stringLiteral s, stringLiteral t])]]"
      and "\<forall>l\<in>set [stringLiteral s, stringLiteral t]. \<exists>s. l = stringLiteral s"
      by (auto simp: mark_seen_def assertError_stmt_def mk_sel)
    with k show ?thesis by blast
  qed
qed

lemma well_formed_leaf [simp]:
  "well_formed (runtime_member f)" "well_formed (stringLiteral s)" "well_formed undefined_node"
  by (simp_all add: runtime_member_def stringLiteral_def mk_def mk_identifier_def undefined_node_def)

lemma all_imports_leaf [simp]:
  "all_imports (runtime_member f) = []" "all_imports (stringLiteral s) = []"
  by (simp_all add: runtime_member_def stringLiteral_def mk_def mk_identifier_def
      isImportDeclaration_def)

lemma well_formed_mk:
  "k \<noteq> ExpressionStatement \<Longrightarrow> well_formed (mk k cs) \<longleftrightarrow> (\<forall>c\<in>set cs. well_formed c)"
  by (simp add: mk_def)

lemma all_imports_mk:
  "\<not> isImportDeclaration (mk k []) \<Longrightarrow> all_imports (mk k cs) = concat (map all_imports cs)"
  by (simp add: mk_def isImportDeclaration_def)

lemma well_formed_expression:
  "well_formed n \<Longrightarrow> well_formed (expression n)"
  by (cases n; cases "children n") (auto simp: expression_def)

lemma hoisted_all_imports:
  "well_formed n \<Longrightarrow> snd (rewritten n) = all_imports n"
proof (induction n rule: rewritten.induct)
  case (1 n)
  show ?case
  proof (cases "enter n")
    case (Replace r)
    let ?r = "inheritTrailingComments r n"
    from enter_Replace_shape[OF Replace] obtain f lits where
      k: "kind n = ExpressionStatement" and kr: "kind r = ExpressionStatement"
      and ch: "children r = [mk CallExpression (runtime_member f # expression n # lits)]
                \<or> children r = [mk AwaitExpression [mk CallExpression
                      (runtime_member f # mk (ArrowFunctionExpression True) [expression n] # lits)]]"
      and lits: "\<forall>l\<in>set lits. \<exists>s. l = stringLiteral s" by blast
    from "1.prems" k obtain x where cn: "children n = [x]"
      by (cases n; cases "children n") auto
    then have ex: "expression n = x" by (simp add: expression_def)
    from "1.prems" cn have wx: "well_formed x" by (cases n) auto
    have wl: "\<forall>l\<in>set lits. well_formed l" using lits by auto
    have al: "concat (map all_imports lits) = []" using lits by (induction lits) auto
    have inh: "kind ?r = ExpressionStatement" "children ?r = children r"
      using kr by (simp_all add: inheritTrailingComments_def)
    have wr: "well_formed ?r"
      using ch wx wl ex inh by (subst well_formed_eq) (auto simp: well_formed_mk)
    have "all_imports ?r = all_imports x"
      using ch ex inh al
      by (subst all_imports_eq) (auto simp: isImportDeclaration_def all_imports_mk mk_def)
    moreover have "all_imports n = all_imports x"
      using k cn by (subst all_imports_eq) (simp add: isImportDeclaration_def)
    ultimately show ?thesis using "1.IH"(1)[OF Replace wr] by (simp add: rewritten_Replace[OF Replace])
  next
    case Remove
    then show ?thesis
      using enter_Remove_import[OF Remove] by (simp add: rewritten_Remove all_imports_eq[of n])
  next
    case Skip
    from enter_Skip_cases[OF Skip] have ni: "\<not> isImportDeclaration n" by simp
    have "\<forall>c\<in>set (children n). snd (rewritten c) = all_imports c"
      using "1.IH"(2)[OF Skip] "1.prems" well_formed_eq[of n] by blast
    then have "map (\<lambda>c. snd (rewritten c)) (children n) = map all_imports (children n)"
      by simp
    then show ?thesis using ni by (simp only: rewritten_Skip[OF Skip] all_imports_eq[of n] snd_conv if_False)
  next
    case (Throw e)
    then show ?thesis using enter_no_throw by blast
  qed
qed


section \<open>The loop over the samples\<close>

lemma has_import_child: "\<not> has_import n \<Longrightarrow> c \<in> set (children n) \<Longrightarrow> \<not> has_import c"
  by (cases n) auto

lemma body_import_free:
  assumes "\<forall>n\<in>set cs. \<not> has_import n"
    and "program_body0_body_body (set_children root cs) = Inr body"
  shows "\<forall>n\<in>set body. \<not> has_import n"
proof -
  from assms(2) obtain program rest fn rest' b rest'' where
    c: "cs = program # rest" "body_of program = fn # rest'" "rev (children fn) = b # rest''"
      "body = body_of b"
    by (auto simp: program_body0_body_body_def set_children_def
        split: list.splits)
  from c(1) assms(1) have "\<not> has_import program" by simp
  moreover from c(2) have "fn \<in> set (children program)"
    unfolding body_of_def by (metis filter_is_subset list.set_intros(1) subsetD)
  ultimately have "\<not> has_import fn" using has_import_child[of program fn] by simp
  moreover from c(3) have "b \<in> set (children fn)" by (metis list.set_intros(1) set_rev)
  ultimately have "\<not> has_import b" using has_import_child by blast
  moreover have "set body \<subseteq> set (children b)" using c(4) by (simp add: body_of_def)
  ultimately show ?thesis using has_import_child by blast
qed

lemma hoisted_are_imports: "\<forall>m\<in>set (snd (rewritten n)). isImportDeclaration m"
proof (induction n rule: rewritten.induct)
  case (1 n)
  show ?case
  proof (cases "enter n")
    case (Replace r)
    with 1(1) show ?thesis by (simp add: rewritten_Replace)
  next
    case Remove
    then show ?thesis using enter_Remove_import by (simp add: rewritten_Remove)
  next
    case Skip
    with 1(2) show ?thesis by (auto simp: rewritten_Skip)
  next
    case (Throw e)
    then show ?thesis using enter_no_throw by blast
  qed
qed

lemma traverse_result:
  assumes "traverse root il = Inr (root', il')"
  shows "\<exists>new. il' = il @ new
          \<and> root' = set_children root (concat (map (\<lambda>c. fst (rewritten c)) (children root)))
          \<and> mset new = mset (concat (map (\<lambda>c. snd (rewritten c)) (children root)))
          \<and> (\<forall>m\<in>set new. isImportDeclaration m)"
proof -
  from traverse_characterisation[of "children root" il] obtain new where
    t: "traverse_children (children root) il
          = Inr (concat (map (\<lambda>c. fst (rewritten c)) (children root)), il @ new)"
    and m: "mset new = mset (concat (map (\<lambda>c. snd (rewritten c)) (children root)))" by blast
  from m have "set new = set (concat (map (\<lambda>c. snd (rewritten c)) (children root)))"
    by (rule mset_eq_setD)
  then have "\<forall>m\<in>set new. isImportDeclaration m" using hoisted_are_imports by auto
  with assms t m show ?thesis by (auto simp: traverse_def)
qed

lemma forEach_result:
  "forEach_testCase e tcs il cl = Inr (il', cl') \<Longrightarrow>
     \<exists>xs. list_all2 (sample_ok e) tcs xs
        \<and> il' = il @ concat (map (\<lambda>(root, body, new). new) xs)
        \<and> cl' = cl @ map2 (\<lambda>t (root, body, new). it_stmt (case_title (tc_title t)) body) tcs xs"
proof (induction tcs arbitrary: il cl)
  case Nil
  then show ?case by simp
next
  case (Cons t tcs)
  from Cons.prems obtain root where p: "Babylon_parse e (wrap_source (tc_value t)) = Inr root"
    by (auto split: sum.splits)
  from Cons.prems p obtain root' il1 where tr: "traverse root il = Inr (root', il1)"
    by (auto split: sum.splits)
  from Cons.prems p tr obtain body where b: "program_body0_body_body root' = Inr body"
    by (auto split: sum.splits)
  from Cons.prems p tr b have
    r: "forEach_testCase e tcs il1 (cl @ [it_stmt (case_title (tc_title t)) body]) = Inr (il', cl')"
    by simp
  from traverse_result[OF tr] obtain new where il1: "il1 = il @ new"
    and root': "root' = set_children root (concat (map (\<lambda>c. fst (rewritten c)) (children root)))"
    and m: "mset new = mset (concat (map (\<lambda>c. snd (rewritten c)) (children root)))"
    and im: "\<forall>m\<in>set new. isImportDeclaration m" by blast
  have "\<forall>n\<in>set (concat (map (\<lambda>c. fst (rewritten c)) (children root))). \<not> has_import n"
    using rewritten_settled by auto
  from body_import_free[OF this b[unfolded root']] have bf: "\<forall>n\<in>set body. \<not> has_import n" .
  have ok: "sample_ok e t (root, body, new)" using p m im bf by (simp add: sample_ok_def)
  from Cons.IH[OF r] obtain xs where
    a: "list_all2 (sample_ok e) tcs xs"
    and i: "il' = il1 @ concat (map (\<lambda>(root, body, new). new) xs)"
    and c: "cl' = (cl @ [it_stmt (case_title (tc_title t)) body])
              @ map2 (\<lambda>t (root, body, new). it_stmt (case_title (tc_title t)) body) tcs xs"
    by blast
  have "list_all2 (sample_ok e) (t # tcs) ((root, body, new) # xs)" using ok a by simp
  moreover have "il' = il @ concat (map (\<lambda>(root, body, new). new) ((root, body, new) # xs))"
    using i il1 by simp
  moreover have "cl' = cl @ map2 (\<lambda>t (root, body, new). it_stmt (case_title (tc_title t)) body)
                              (t # tcs) ((root, body, new) # xs)"
    using c by simp
  ultimately show ?case by blast
qed

lemma forEach_append:
  "forEach_testCase e (xs @ ys) il cl =
     (case forEach_testCase e xs il cl of
        Inl err \<Rightarrow> Inl err
      | Inr (il', cl') \<Rightarrow> forEach_testCase e ys il' cl')"
  by (induction xs arbitrary: il cl) (auto split: sum.splits)


lemma resolve_imports_shape:
  "resolve_imports e f st ns = Inr (ns', st') \<Longrightarrow> list_all2 remapped ns ns'"
proof (induction ns arbitrary: st ns' st')
  case Nil
  then show ?case by simp
next
  case (Cons n ns)
  show ?case
  proof (cases "kind n")
    case (ImportDeclaration src)
    with Cons.prems obtain src' st1 ns1 where
      "resolveModuleSource e st src f = (Inr src', st1)"
      "resolve_imports e f st1 ns = Inr (ns1, st')"
      "ns' = Node (ImportDeclaration src') (children n) (trailingComments n) (TESTDOC_SEEN n) # ns1"
      by (auto split: sum.splits prod.splits)
    with Cons.IH[of st1 ns1 st'] ImportDeclaration show ?thesis
      by (auto simp: remapped_def)
  next
    case ExpressionStatement
    with Cons.prems obtain ns1 where "resolve_imports e f st ns = Inr (ns1, st')" "ns' = n # ns1"
      by (auto split: sum.splits)
    with Cons.IH[of st ns1 st'] ExpressionStatement show ?thesis by (auto simp: remapped_def)
  qed (use Cons in \<open>auto simp: remapped_def split: sum.splits\<close>)
qed


lemma forEach_fails:
  "t \<in> set tcs \<Longrightarrow> Babylon_parse e (wrap_source (tc_value t)) = Inl err \<Longrightarrow>
     \<exists>err'. forEach_testCase e tcs il cl = Inl err'"
proof (induction tcs arbitrary: il cl)
  case Nil
  then show ?case by simp
next
  case (Cons x xs)
  show ?case
  proof (cases "x = t")
    case True
    with Cons.prems show ?thesis by simp
  next
    case False
    with Cons.prems have "t \<in> set xs" by simp
    from Cons.IH[OF this Cons.prems(2)] show ?thesis
      by (auto split: sum.splits prod.splits)
  qed
qed


section \<open>The manifest cache\<close>

lemma cache_get_undefined:
  "cache_get c k = JSUndefined \<longleftrightarrow> c k = None \<and> inherited k = None"
  by (auto simp: cache_get_def split: option.splits)

lemma resolve_state:
  "snd (resolveModuleSource e st source filename) =
     (if cache_get (packageJSONCache st) (path_dirname filename) = JSUndefined
      then \<lparr>packageJSONCache = (packageJSONCache st)(path_dirname filename \<mapsto>
                findPackageJSON e (path_dirname filename)),
            walks = walks st @ [path_dirname filename]\<rparr>
      else st)"
  by (simp add: resolveModuleSource_def Let_def split: js_value.splits option.splits)

lemma cache_inv_step:
  assumes "cache_inv e st"
  shows "cache_inv e (snd (resolveModuleSource e st source filename))"
proof (cases "cache_get (packageJSONCache st) (path_dirname filename) = JSUndefined")
  case True
  then have n: "packageJSONCache st (path_dirname filename) = None"
    by (simp add: cache_get_undefined)
  with assms have "path_dirname filename \<notin> set (walks st)" by (auto simp: cache_inv_def)
  with assms True show ?thesis
    unfolding resolve_state cache_inv_def by auto
next
  case False
  with assms show ?thesis by (simp add: resolve_state)
qed

lemma cache_inv_empty: "cache_inv e \<lparr>packageJSONCache = Map.empty, walks = []\<rparr>"
  by (simp add: cache_inv_def)

lemma resolve_imports_inv:
  "resolve_imports e f st ns = Inr (ns', st') \<Longrightarrow> cache_inv e st \<Longrightarrow> cache_inv e st'"
proof (induction ns arbitrary: st ns' st')
  case Nil
  then show ?case by simp
next
  case (Cons n ns)
  show ?case
  proof (cases "kind n")
    case (ImportDeclaration src)
    with Cons.prems(1) obtain src' st1 ns1 where
      r: "resolveModuleSource e st src f = (Inr src', st1)"
      and t: "resolve_imports e f st1 ns = Inr (ns1, st')"
      by (auto split: sum.splits prod.splits)
    from cache_inv_step[OF Cons.prems(2), of src f] r have "cache_inv e st1" by simp
    from Cons.IH[OF t this] show ?thesis .
  next
    case ExpressionStatement
    with Cons.prems(1) obtain ns1 where "resolve_imports e f st ns = Inr (ns1, st')"
      by (auto split: sum.splits)
    from Cons.IH[OF this Cons.prems(2)] show ?thesis .
  qed (use Cons in \<open>auto split: sum.splits\<close>)
qed


lemma cache_get_found:
  assumes "inherited d = None"
    and "c d = None \<or> c d = Some (findPackageJSON e d)"
  shows "cache_get (packageJSONCache
           (if cache_get c d = JSUndefined
            then \<lparr>packageJSONCache = c(d \<mapsto> findPackageJSON e d), walks = w @ [d]\<rparr>
            else \<lparr>packageJSONCache = c, walks = w\<rparr>)) d
         = (case findPackageJSON e d of None \<Rightarrow> JSNull | Some p \<Rightarrow> JSObject p)"
  using assms by (cases "findPackageJSON e d") (auto simp: cache_get_def split: option.splits)

lemma resolve_value:
  assumes "inherited (path_dirname filename) = None"
    and "packageJSONCache st (path_dirname filename) = None
         \<or> packageJSONCache st (path_dirname filename)
             = Some (findPackageJSON e (path_dirname filename))"
  shows "fst (resolveModuleSource e st source filename) =
     (case findPackageJSON e (path_dirname filename) of
        None \<Rightarrow> Inr source
      | Some packageJSON \<Rightarrow>
          if Some source = pkg_name packageJSON then
            (case pkg_path packageJSON of
               None \<Rightarrow> Inl TypeError
             | Some p \<Rightarrow>
                 Inr (or_dot (path_relative (cwd e) (path_dirname filename) (path_dirname p)) @ ''/''))
          else if take (length (name_slash (pkg_name packageJSON))) source
                    = name_slash (pkg_name packageJSON) then
            (case pkg_path packageJSON of
               None \<Rightarrow> Inl TypeError
             | Some p \<Rightarrow>
                 (case pkg_name packageJSON of
                    None \<Rightarrow> Inl TypeError
                  | Some n \<Rightarrow>
                      Inr (or_dot (path_relative (cwd e) (path_dirname filename) (path_dirname p))
                           @ drop (length n) source)))
          else Inr source)"
proof -
  obtain c w where st: "st = \<lparr>packageJSONCache = c, walks = w\<rparr>" by (cases st) auto
  from assms have a: "inherited (path_dirname filename) = None"
    and b: "c (path_dirname filename) = None
            \<or> c (path_dirname filename) = Some (findPackageJSON e (path_dirname filename))"
    by (simp_all add: st)
  show ?thesis
    unfolding resolveModuleSource_def Let_def st resolver_state.simps
      cache_get_found[where d = "path_dirname filename" and c = c and e = e and w = w, OF a b]
    by (simp split: option.splits)
qed


section \<open>The scan visits every code block at its place\<close>

lemma title_of_spec:
  "index < length (md_children parent) \<Longrightarrow>
     title_of e (prev_sibling parent index) = title_spec e parent index"
  by (auto simp: title_of_def prev_sibling_def title_spec_def Let_def)

lemma visitor_spec:
  "index < length (md_children parent) \<Longrightarrow> md_children parent ! index = n \<Longrightarrow>
     (if md_type n = ''code'' then visitor e n index parent else [])
       = map (sample_at e) (filter accepted_block [(parent, index)])"
  by (auto simp: visitor_def Let_def title_of_spec accepted_block_def sample_at_def)

lemma positions_children:
  assumes "\<And>j. j < length (md_children n) \<Longrightarrow>
             visit_one e (md_children n ! j) j n
               = map (sample_at e) (filter accepted_block ((n, j) # positions (md_children n ! j)))"
  shows "concat (map (\<lambda>(i, c). visit_one e c i n) (enumerate 0 (md_children n)))
           = map (sample_at e) (filter accepted_block (positions n))"
proof -
  have "map (\<lambda>(i, c). visit_one e c i n) (enumerate 0 (md_children n))
      = map (\<lambda>(i, c). map (sample_at e) (filter accepted_block ((n, i) # positions c)))
          (enumerate 0 (md_children n))"
    by (rule map_cong[OF refl]) (use assms in \<open>auto simp: in_set_enumerate_eq\<close>)
  moreover have "positions n = concat (map (\<lambda>(i, c). (n, i) # positions c) (enumerate 0 (md_children n)))"
    by (cases n) simp
  ultimately show ?thesis
    by (simp only: map_concat filter_concat map_map comp_def split_def)
qed

lemma visit_one_positions:
  "i < length (md_children p) \<Longrightarrow> md_children p ! i = n \<Longrightarrow>
   visit_one e n i p = map (sample_at e) (filter accepted_block ((p, i) # positions n))"
proof (induction e n i p rule: visit_one.induct)
  case (1 e t l v cs index parent)
  let ?n = "Mdast t l v cs"
  have IH: "\<And>j. j < length (md_children ?n) \<Longrightarrow>
       visit_one e (md_children ?n ! j) j ?n
         = map (sample_at e) (filter accepted_block ((?n, j) # positions (md_children ?n ! j)))"
  proof -
    fix j assume j: "j < length (md_children ?n)"
    then have jc: "(j, md_children ?n ! j) \<in> set (enumerate 0 cs)"
      by (simp add: in_set_enumerate_eq)
    from "1.IH"[OF jc refl j refl]
    show "visit_one e (md_children ?n ! j) j ?n
         = map (sample_at e) (filter accepted_block ((?n, j) # positions (md_children ?n ! j)))" .
  qed
  have a: "(if md_type ?n = ''code'' then visitor e ?n index parent else [])
        = map (sample_at e) (filter accepted_block [(parent, index)])"
    using "1.prems" by (rule visitor_spec)
  have c: "visit_one e ?n index parent
      = (if md_type ?n = ''code'' then visitor e ?n index parent else [])
        @ concat (map (\<lambda>(i, c). visit_one e c i ?n) (enumerate 0 (md_children ?n)))"
    by simp
  show ?case by (simp only: c a positions_children[of ?n e, OF IH]) simp
qed

lemma mdastVisitNode_positions:
  "mdastVisitNode e root = map (sample_at e) (filter accepted_block (positions root))"
  unfolding mdastVisitNode_def
  by (rule positions_children) (simp add: visit_one_positions)

section \<open>The shape of a compiled program\<close>

lemma remapped_statement:
  "remapped a b \<Longrightarrow> kind a = ExpressionStatement \<Longrightarrow> b = a"
  by (simp add: remapped_def)

lemma compile_result:
  assumes "compile e source opts = Inr program"
  shows "\<exists>importList caseList stmts.
      forEach_testCase e (mdastVisitNode e (Remark_parse e source)) [] [] = Inr (importList, caseList)
    \<and> list_all2 remapped (preamble e @ importList) stmts
    \<and> program = mk Program (stmts @ [describe_stmt (suite_title opts) caseList])"
proof -
  from assms obtain il cl prog st where
    f: "forEach_testCase e (mdastVisitNode e (Remark_parse e source)) [] [] = Inr (il, cl)"
    and t: "transformFromAst e opts (generate_program e opts il cl) = Inr (prog, st)"
    and p: "program = mk Program prog"
    by (auto simp: compile_def Let_def split: sum.splits)
  from t have "list_all2 remapped (generate_program e opts il cl) prog"
    unfolding transformFromAst_def by (rule resolve_imports_shape)
  then have "list_all2 remapped ((preamble e @ il) @ [describe_stmt (suite_title opts) cl]) prog"
    by (simp add: generate_program_def)
  then obtain us vs where uv: "prog = us @ vs" "list_all2 remapped (preamble e @ il) us"
    "list_all2 remapped [describe_stmt (suite_title opts) cl] vs"
    unfolding list_all2_append1 by blast
  from uv(3) obtain d where d: "vs = [d]" "remapped (describe_stmt (suite_title opts) cl) d"
    by (auto simp: list_all2_Cons1)
  from d(2) have "d = describe_stmt (suite_title opts) cl"
    by (rule remapped_statement) (simp add: describe_stmt_def mk_def)
  with uv d f p show ?thesis by blast
qed

lemma forEach_cases:
  assumes "forEach_testCase e tcs [] [] = Inr (il, cl)"
  shows "length cl = length tcs
       \<and> (\<forall>i<length tcs. \<exists>body. cl ! i = it_stmt (case_title (tc_title (tcs ! i))) body)"
proof -
  from forEach_result[OF assms] obtain xs where
    a: "list_all2 (sample_ok e) tcs xs"
    and c: "cl = [] @ map2 (\<lambda>t (root, body, new). it_stmt (case_title (tc_title t)) body) tcs xs"
    by blast
  from a have len: "length xs = length tcs" by (simp add: list_all2_lengthD)
  with c have "length cl = length tcs" by simp
  moreover have "\<forall>i<length tcs. \<exists>body. cl ! i = it_stmt (case_title (tc_title (tcs ! i))) body"
    using c len by (auto simp: split_def)
  ultimately show ?thesis by blast
qed

section \<open>The order of the hoisted import declarations\<close>

lemma statement_level_imports_eq:
  "statement_level_imports n \<longleftrightarrow>
     (kind n = ExpressionStatement \<longrightarrow> (\<forall>c\<in>set (children n). \<not> has_import c))
     \<and> (\<forall>c\<in>set (children n). statement_level_imports c)"
  by (cases n) simp

lemma has_import_eq:
  "has_import n \<longleftrightarrow> isImportDeclaration n \<or> (\<exists>c\<in>set (children n). has_import c)"
  by (cases n) simp

lemma no_import_statement_level: "\<not> has_import n \<Longrightarrow> statement_level_imports n"
  by (induction n) auto

lemma no_import_all_imports: "\<not> has_import n \<Longrightarrow> all_imports n = []"
  by (induction n) auto

lemma no_import_leaf [simp]:
  "\<not> has_import (runtime_member f)" "\<not> has_import (stringLiteral s)"
  by (simp_all add: runtime_member_def stringLiteral_def mk_def mk_identifier_def
      isImportDeclaration_def)

lemma has_import_mk:
  "\<not> isImportDeclaration (mk k []) \<Longrightarrow> has_import (mk k cs) \<longleftrightarrow> (\<exists>c\<in>set cs. has_import c)"
  by (simp add: mk_def isImportDeclaration_def)

lemma replacement_statement_level:
  assumes en: "enter n = Replace r" and wf: "well_formed n" and sl: "statement_level_imports n"
  shows "well_formed (inheritTrailingComments r n)
       \<and> \<not> has_import (inheritTrailingComments r n) \<and> all_imports n = []"
proof -
  let ?r = "inheritTrailingComments r n"
  from enter_Replace_shape[OF en] obtain f lits where
    k: "kind n = ExpressionStatement" and kr: "kind r = ExpressionStatement"
    and ch: "children r = [mk CallExpression (runtime_member f # expression n # lits)]
              \<or> children r = [mk AwaitExpression [mk CallExpression
                    (runtime_member f # mk (ArrowFunctionExpression True) [expression n] # lits)]]"
    and lits: "\<forall>l\<in>set lits. \<exists>s. l = stringLiteral s" by blast
  from wf k obtain x where cn: "children n = [x]"
    by (cases n; cases "children n") auto
  then have ex: "expression n = x" by (simp add: expression_def)
  from wf cn have wx: "well_formed x" by (cases n) auto
  from sl k cn have nx: "\<not> has_import x" using statement_level_imports_eq[of n] by simp
  have wl: "\<forall>l\<in>set lits. well_formed l" using lits by auto
  have nl: "\<forall>l\<in>set lits. \<not> has_import l" using lits by auto
  have inh: "kind ?r = ExpressionStatement" "children ?r = children r"
    using kr by (simp_all add: inheritTrailingComments_def)
  have wr: "well_formed ?r"
    using ch wx wl ex inh by (subst well_formed_eq) (auto simp: well_formed_mk)
  have nr: "\<not> has_import ?r"
    using ch ex inh nx nl
    by (subst has_import_eq) (auto simp: isImportDeclaration_def has_import_mk mk_def)
  have "\<not> has_import n" using k cn nx by (subst has_import_eq) (simp add: isImportDeclaration_def)
  then have "all_imports n = []" by (rule no_import_all_imports)
  with wr nr show ?thesis by blast
qed

lemma queue_order:
  "\<forall>(i, n)\<in>set q. well_formed n \<and> statement_level_imports n \<Longrightarrow>
     \<exists>sl'. visit_queue q sl il = Inr (sl', il @ concat (map (\<lambda>(i, n). all_imports n) q))"
  and traverse_order:
  "\<forall>n\<in>set ns. well_formed n \<and> statement_level_imports n \<Longrightarrow>
     \<exists>cs. traverse_children ns il = Inr (cs, il @ concat (map all_imports ns))"
proof (induction q sl il and ns il rule: visit_queue_traverse_children.induct)
  case (1 slots importList)
  then show ?case by simp
next
  case (2 i n queue slots importList)
  from "2.prems" have wn: "well_formed n" and sn: "statement_level_imports n"
    and rest: "\<forall>(i, n)\<in>set queue. well_formed n \<and> statement_level_imports n" by auto
  show ?case
  proof (cases "enter n")
    case (Replace r)
    let ?r = "inheritTrailingComments r n"
    from replacement_statement_level[OF Replace wn sn] have wr: "well_formed ?r"
      and nr: "\<not> has_import ?r" and an: "all_imports n = []" by blast+
    from nr have sr: "statement_level_imports ?r" and ar: "all_imports ?r = []"
      by (rule no_import_statement_level, rule no_import_all_imports)
    have "\<forall>(i, n)\<in>set (queue @ [(i, ?r)]). well_formed n \<and> statement_level_imports n"
      using rest wr sr by auto
    from "2.IH"(1)[OF Replace this] obtain sl' where
      "visit_queue (queue @ [(i, ?r)]) (slots[i := [?r]]) importList
         = Inr (sl', importList @ concat (map (\<lambda>(i, n). all_imports n) (queue @ [(i, ?r)])))"
      by blast
    then show ?thesis using Replace an ar by simp
  next
    case Remove
    from "2.IH"(2)[OF Remove rest] obtain sl' where
      "visit_queue queue (slots[i := []]) (importList @ [n])
         = Inr (sl', (importList @ [n]) @ concat (map (\<lambda>(i, n). all_imports n) queue))"
      by blast
    moreover have "all_imports n = [n]"
      using enter_Remove_import[OF Remove] by (simp add: all_imports_eq[of n])
    ultimately show ?thesis using Remove by simp
  next
    case Skip
    from enter_Skip_cases[OF Skip] have ni: "\<not> isImportDeclaration n" by simp
    have ch: "\<forall>c\<in>set (children n). well_formed c \<and> statement_level_imports c"
      using wn sn well_formed_eq[of n] statement_level_imports_eq[of n] by blast
    from "2.IH"(3)[OF Skip ch] obtain cs where
      t: "traverse_children (children n) importList
            = Inr (cs, importList @ concat (map all_imports (children n)))" by blast
    from "2.IH"(4)[OF Skip t refl rest] obtain sl' where
      "visit_queue queue (slots[i := [set_children n cs]])
           (importList @ concat (map all_imports (children n)))
         = Inr (sl', (importList @ concat (map all_imports (children n)))
                  @ concat (map (\<lambda>(i, n). all_imports n) queue))"
      by blast
    moreover have "all_imports n = concat (map all_imports (children n))"
      using ni by (simp add: all_imports_eq[of n])
    ultimately show ?thesis using Skip t by simp
  next
    case (Throw e)
    then show ?thesis using enter_no_throw by blast
  qed
next
  case (3 ns importList)
  have "\<forall>(i, n)\<in>set (enumerate 0 ns). well_formed n \<and> statement_level_imports n"
    using "3.prems" by (auto simp: in_set_enumerate_eq)
  from "3.IH"[OF this] obtain sl' where
    "visit_queue (enumerate 0 ns) (map (\<lambda>n. [n]) ns) importList
       = Inr (sl', importList @ concat (map (\<lambda>(i, n). all_imports n) (enumerate 0 ns)))"
    by blast
  moreover have "map (\<lambda>(i, n). all_imports n) (enumerate 0 ns) = map all_imports ns"
    by (rule map_snd_enumerate)
  ultimately show ?case by (simp add: traverse_children.simps)
qed


section \<open>Statement lists without import declarations\<close>





section \<open>Classification of one node\<close>

text \<open>
  What \<open>findAssertion\<close> returns for a node, from its type and the trailing comments
  it carries when the visitor enters it.
\<close>

lemma findAssertion_classification:
  "findAssertion n =
     (if kind n = ExpressionStatement then
        (case trailingComments n of
           None \<Rightarrow> None
         | Some [] \<Rightarrow> None
         | Some (c # cs) \<Rightarrow>
             if (\<exists>ws rest. comment_value c = ws @ ''=> '' @ rest \<and> (\<forall>x\<in>set ws. is_space x))
             then Some Repr
             else if (\<exists>ws pre rest. comment_value c = ws @ pre @ ''Error: '' @ rest
                        \<and> (\<forall>x\<in>set ws. is_space x) \<and> (\<forall>x\<in>set pre. is_alpha x))
             then Some Error
             else None)
      else None)
   \<and> (kind n = ExpressionStatement \<and> findAssertion n = None \<longrightarrow> enter n = Skip)"
proof
  show "findAssertion n =
     (if kind n = ExpressionStatement then
        (case trailingComments n of
           None \<Rightarrow> None
         | Some [] \<Rightarrow> None
         | Some (c # cs) \<Rightarrow>
             if (\<exists>ws rest. comment_value c = ws @ ''=> '' @ rest \<and> (\<forall>x\<in>set ws. is_space x))
             then Some Repr
             else if (\<exists>ws pre rest. comment_value c = ws @ pre @ ''Error: '' @ rest
                        \<and> (\<forall>x\<in>set ws. is_space x) \<and> (\<forall>x\<in>set pre. is_alpha x))
             then Some Error
             else None)
      else None)"
    unfolding findAssertion_def isExpressionStatement_def Let_def
      REPR_None_iff ERR_None_iff
    by (simp split: option.split list.split)
  show "kind n = ExpressionStatement \<and> findAssertion n = None \<longrightarrow> enter n = Skip"
    by (simp add: enter_def isImportDeclaration_def)
qed

section \<open>Rewriting a Repr annotation\<close>



section \<open>Rewriting an Error annotation\<close>



section \<open>Detection and classification\<close>

text \<open>
  C3. The visitor classifies a node by the trailing comments it carries when it is
  entered, whether they are its own or not. In the sample that starts with the comment
  line \<open>// => 1\<close>, followed by \<open>import a from 'a'\<close> and the statement \<open>y\<close>, the
  comment is a leading comment of the import declaration and \<open>y\<close> has no comment: as
  parsed, \<open>y\<close> has no annotation and the visitor leaves it as it is. The traversal
  enters the import declaration first and removes it, and the removal appends the
  leading comments of the declaration to the trailing comments of \<open>y\<close>; when the
  visitor then enters \<open>y\<close>, it finds a Repr annotation and replaces the statement by
  \<open>__MochaDoctestRuntime.assertRepr(y, "1")\<close>.
\<close>

theorem handed_comment_rewritten:
  "findAssertion example_plain_statement = None
   \<and> enter example_plain_statement = Skip
   \<and> findAssertion (addComments_trailing (Some [Comment '' => 1'']) example_plain_statement)
       = Some Repr
   \<and> enter (addComments_trailing (Some [Comment '' => 1'']) example_plain_statement)
       = Replace (Node ExpressionStatement
           [mk CallExpression
              [runtime_member ''assertRepr'', mk_identifier ''y'', stringLiteral ''1'']]
           None True)"
  by code_simp

section \<open>Idempotence\<close>

text \<open>
  C4. Every replacement carries the marker, so the visitor leaves it alone when the
  traversal comes back to it; and a second traversal of an already traversed statement
  list changes nothing and hoists nothing: no statement is wrapped twice.
\<close>

theorem rewriting_idempotent:
  "(enter n = Replace r \<longrightarrow>
      TESTDOC_SEEN r \<and> TESTDOC_SEEN (inheritTrailingComments r n)
      \<and> enter (inheritTrailingComments r n) = Skip)
   \<and> (traverse_children ns il = Inr (ns', il') \<longrightarrow>
        (\<forall>il2. traverse_children ns' il2 = Inr (ns', il2)))"
proof (intro conjI impI allI)
  assume r: "enter n = Replace r"
  from enter_Replace_seen[OF r] show "TESTDOC_SEEN r" by simp
  then show "TESTDOC_SEEN (inheritTrailingComments r n)" by (simp add: inheritTrailingComments_def)
  from enter_requeued[OF r] show "enter (inheritTrailingComments r n) = Skip" .
next
  fix il2
  assume t: "traverse_children ns il = Inr (ns', il')"
  with traverse_children_result[of ns il]
  have "ns' = concat (map (\<lambda>c. fst (rewritten c)) ns)" by auto
  then have "\<forall>m\<in>set ns'. pending m = 0 \<and> \<not> has_import m"
    using rewritten_settled by auto
  then show "traverse_children ns' il2 = Inr (ns', il2)" by (rule traverse_settled)
qed


theorem rewriting_idempotent_witness:
  "traverse_children
      [Node ExpressionStatement [mk_identifier ''x''] (Some [Comment '' => 1'']) False] []
     = Inr ([Node ExpressionStatement
               [mk CallExpression
                  [runtime_member ''assertRepr'', mk_identifier ''x'', stringLiteral ''1'']]
               (Some [Comment '' => 1'']) True], [])
   \<and> traverse_children
      [Node ExpressionStatement
         [mk CallExpression
            [runtime_member ''assertRepr'', mk_identifier ''x'', stringLiteral ''1'']]
         (Some [Comment '' => 1'']) True] [mk (ImportDeclaration ''a'') []]
     = Inr ([Node ExpressionStatement
               [mk CallExpression
                  [runtime_member ''assertRepr'', mk_identifier ''x'', stringLiteral ''1'']]
               (Some [Comment '' => 1'']) True], [mk (ImportDeclaration ''a'') []])"
proof -
  have t: "traverse_children
      [Node ExpressionStatement [mk_identifier ''x''] (Some [Comment '' => 1'']) False] []
     = Inr ([Node ExpressionStatement
               [mk CallExpression
                  [runtime_member ''assertRepr'', mk_identifier ''x'', stringLiteral ''1'']]
               (Some [Comment '' => 1'']) True], [])"
    by code_simp
  from rewriting_idempotent[of undefined_node undefined_node,
      THEN conjunct2, rule_format, OF t, of "[mk (ImportDeclaration ''a'') []]"] t
  show ?thesis by simp
qed

section \<open>Import hoisting and the assembled program\<close>



section \<open>Language tags\<close>

text \<open>
  C6. The allow-list has the two keys \<open>js+test\<close> and \<open>javasctipt+test\<close>, but the
  lookup \<open>SUPPORTED_LANG[node.lang]\<close> also finds what the object inherits from
  \<open>Object.prototype\<close>: a block tagged \<open>constructor\<close> is taken as a sample and yields
  a test case.
\<close>

theorem prototype_tag_accepted:
  "map_of SUPPORTED_LANG ''constructor'' = None
   \<and> SUPPORTED_LANG_lookup (Some ''constructor'')
   \<and> mdastVisitNode example_env (Remark_parse example_env ''tagged'')
       = [\<lparr>tc_title = None, tc_lang = Some ''constructor'', tc_value = example_sample_a\<rparr>]
   \<and> compile example_env ''tagged'' example_options
       = Inr (mk Program
           (preamble example_env
            @ [mk (ImportDeclaration ''a'') [mk ImportDefaultSpecifier [mk_identifier ''a'']]]
            @ [describe_stmt ''/pkg/docs/readme.md''
                 [it_stmt ''works''
                    [Node ExpressionStatement
                       [mk CallExpression
                          [runtime_member ''assertRepr'',
                           mk CallExpression
                             [mk MemberExpression [mk_identifier ''a'', mk_identifier ''f'']],
                           stringLiteral ''1'']]
                       (Some [Comment '' => 1'']) True]]]))"
  by code_simp


section \<open>A sample that does not parse\<close>

text \<open>
  C8. When the parser rejects a sample, the compilation ends with the parser's error
  and returns no program: with the first rejected sample's error, whatever samples
  follow it in the document, which are never parsed.
\<close>

theorem parse_failure_aborts:
  "(mdastVisitNode e (Remark_parse e source) = pre @ bad # post
      \<and> forEach_testCase e pre [] [] = Inr (il, cl)
      \<and> Babylon_parse e (wrap_source (tc_value bad)) = Inl err
    \<longrightarrow> compile e source opts = Inl err
        \<and> (\<forall>later. forEach_testCase e (pre @ bad # later) [] [] = Inl err))
   \<and> (t \<in> set (mdastVisitNode e (Remark_parse e source))
      \<and> Babylon_parse e (wrap_source (tc_value t)) = Inl err
    \<longrightarrow> (\<exists>err'. compile e source opts = Inl err'))"
proof (intro conjI impI)
  assume a: "mdastVisitNode e (Remark_parse e source) = pre @ bad # post
      \<and> forEach_testCase e pre [] [] = Inr (il, cl)
      \<and> Babylon_parse e (wrap_source (tc_value bad)) = Inl err"
  then have l: "forEach_testCase e (pre @ bad # later) [] [] = Inl err" for later
    by (simp add: forEach_append)
  then show "\<forall>later. forEach_testCase e (pre @ bad # later) [] [] = Inl err" by blast
  from l[of post] a show "compile e source opts = Inl err" by (simp add: compile_def)
next
  assume "t \<in> set (mdastVisitNode e (Remark_parse e source))
      \<and> Babylon_parse e (wrap_source (tc_value t)) = Inl err"
  then obtain err' where
    "forEach_testCase e (mdastVisitNode e (Remark_parse e source)) [] [] = Inl err'"
    using forEach_fails by blast
  then show "\<exists>err'. compile e source opts = Inl err'" by (simp add: compile_def)
qed

theorem parse_failure_aborts_witness:
  "mdastVisitNode example_env (Remark_parse example_env ''broken'')
     = [\<lparr>tc_title = None, tc_lang = Some ''js+test'', tc_value = example_sample_a\<rparr>]
       @ \<lparr>tc_title = None, tc_lang = Some ''js+test'', tc_value = ''f((''\<rparr>
       # [\<lparr>tc_title = None, tc_lang = Some ''js+test'', tc_value = example_sample_b\<rparr>]
   \<and> Babylon_parse example_env (wrap_source ''f(('') = Inl (SyntaxError ''Unexpected token'')
   \<and> compile example_env ''broken'' example_options = Inl (SyntaxError ''Unexpected token'')"
proof -
  have a: "mdastVisitNode example_env (Remark_parse example_env ''broken'')
     = [\<lparr>tc_title = None, tc_lang = Some ''js+test'', tc_value = example_sample_a\<rparr>]
       @ \<lparr>tc_title = None, tc_lang = Some ''js+test'', tc_value = ''f((''\<rparr>
       # [\<lparr>tc_title = None, tc_lang = Some ''js+test'', tc_value = example_sample_b\<rparr>]"
    by code_simp
  have b: "forEach_testCase example_env
             [\<lparr>tc_title = None, tc_lang = Some ''js+test'', tc_value = example_sample_a\<rparr>] [] []
     = Inr ([mk (ImportDeclaration ''a'') [mk ImportDefaultSpecifier [mk_identifier ''a'']]],
            [it_stmt ''works''
               [Node ExpressionStatement
                  [mk CallExpression
                     [runtime_member ''assertRepr'',
                      mk CallExpression [mk MemberExpression [mk_identifier ''a'', mk_identifier ''f'']],
                      stringLiteral ''1'']]
                  (Some [Comment '' => 1'']) True]])"
    by code_simp
  have c: "Babylon_parse example_env
             (wrap_source (tc_value \<lparr>tc_title = None, tc_lang = Some ''js+test'', tc_value = ''f((''\<rparr>))
           = Inl (SyntaxError ''Unexpected token'')"
    by code_simp
  from parse_failure_aborts[of example_env "''broken''" _ _ _ _ _ _ example_options, THEN conjunct1, rule_format, OF conjI[OF a conjI[OF b c]]] a c
  show ?thesis by simp
qed



section \<open>Titles\<close>

text \<open>
  C9. The samples of a document are its accepted code blocks in document order, each
  taken at its own place, that is with its parent and its index among the children of
  that parent: the title of a sample is absent unless the node just before the block
  among these children is a paragraph, and then it is the flattened text of the
  paragraph, without its last character when that is a colon. In the compiled program
  the body of the \<open>describe\<close> call has one \<open>it\<close> call for each sample, in the same
  order, whose first argument is the title of the sample, and \<open>works\<close> when the title
  is absent (or empty).
\<close>

theorem sample_title:
  assumes "compile e source opts = Inr program"
  shows "\<exists>samples stmts cases.
      samples = mdastVisitNode e (Remark_parse e source)
    \<and> samples = map (sample_at e) (filter accepted_block (positions (Remark_parse e source)))
    \<and> program = mk Program (stmts @ [mk ExpressionStatement
         [mk CallExpression
            [mk_identifier ''describe'', stringLiteral (suite_title opts),
             mk (FunctionExpression False) [mk BlockStatement cases]]]])
    \<and> length cases = length samples
    \<and> (\<forall>i<length samples. \<exists>body. cases ! i = mk ExpressionStatement
         [mk CallExpression
            [mk_identifier ''it'',
             stringLiteral (case tc_title (samples ! i) of
                              None \<Rightarrow> ''works''
                            | Some t \<Rightarrow> if t = [] then ''works'' else t),
             mk (FunctionExpression True) [mk BlockStatement body]]])"
proof -
  let ?samples = "mdastVisitNode e (Remark_parse e source)"
  from compile_result[OF assms] obtain importList caseList stmts where
    f: "forEach_testCase e ?samples [] [] = Inr (importList, caseList)"
    and p: "program = mk Program (stmts @ [describe_stmt (suite_title opts) caseList])"
    by blast
  from forEach_cases[OF f] have len: "length caseList = length ?samples"
    and it: "\<forall>i<length ?samples. \<exists>body.
               caseList ! i = it_stmt (case_title (tc_title (?samples ! i))) body"
    by blast+
  have t: "\<And>x. case_title x = (case x of None \<Rightarrow> ''works''
                                  | Some t \<Rightarrow> if t = [] then ''works'' else t)"
    by (simp add: case_title_def truthy_def split: option.split)
  have 1: "?samples = map (sample_at e) (filter accepted_block (positions (Remark_parse e source)))"
    by (rule mdastVisitNode_positions)
  have 2: "program = mk Program (stmts @ [mk ExpressionStatement
         [mk CallExpression
            [mk_identifier ''describe'', stringLiteral (suite_title opts),
             mk (FunctionExpression False) [mk BlockStatement caseList]]]])"
    using p by (simp add: describe_stmt_def caseExpression_def)
  have 3: "\<forall>i<length ?samples. \<exists>body. caseList ! i = mk ExpressionStatement
         [mk CallExpression
            [mk_identifier ''it'',
             stringLiteral (case tc_title (?samples ! i) of
                              None \<Rightarrow> ''works''
                            | Some t \<Rightarrow> if t = [] then ''works'' else t),
             mk (FunctionExpression True) [mk BlockStatement body]]]"
    using it by (simp add: it_stmt_def caseExpression_def t)
  from 1 2 len 3 show ?thesis by blast
qed

theorem sample_title_witness:
  "compile example_nested_env ''nested'' example_options
     = Inr (mk Program
         (preamble example_env @ [example_import ''a'', example_import ''b'']
          @ [describe_stmt ''/pkg/docs/readme.md''
               [it_stmt ''works'' [example_assertion_a],
                it_stmt ''Nested'' [example_assertion_b]]]))
   \<and> map tc_title (mdastVisitNode example_nested_env example_nested_document)
       = [None, Some ''Nested'']
   \<and> map snd (filter accepted_block (positions example_nested_document)) = [0, 1]
   \<and> (\<exists>samples stmts cases.
      samples = mdastVisitNode example_nested_env (Remark_parse example_nested_env ''nested'')
    \<and> samples = map (sample_at example_nested_env)
        (filter accepted_block (positions (Remark_parse example_nested_env ''nested'')))
    \<and> mk Program
         (preamble example_env @ [example_import ''a'', example_import ''b'']
          @ [describe_stmt ''/pkg/docs/readme.md''
               [it_stmt ''works'' [example_assertion_a],
                it_stmt ''Nested'' [example_assertion_b]]])
        = mk Program (stmts @ [mk ExpressionStatement
         [mk CallExpression
            [mk_identifier ''describe'', stringLiteral (suite_title example_options),
             mk (FunctionExpression False) [mk BlockStatement cases]]]])
    \<and> length cases = length samples
    \<and> (\<forall>i<length samples. \<exists>body. cases ! i = mk ExpressionStatement
         [mk CallExpression
            [mk_identifier ''it'',
             stringLiteral (case tc_title (samples ! i) of
                              None \<Rightarrow> ''works''
                            | Some t \<Rightarrow> if t = [] then ''works'' else t),
             mk (FunctionExpression True) [mk BlockStatement body]]]))"
proof -
  have c: "compile example_nested_env ''nested'' example_options
     = Inr (mk Program
         (preamble example_env @ [example_import ''a'', example_import ''b'']
          @ [describe_stmt ''/pkg/docs/readme.md''
               [it_stmt ''works'' [example_assertion_a],
                it_stmt ''Nested'' [example_assertion_b]]]))"
    by code_simp
  have t: "map tc_title (mdastVisitNode example_nested_env example_nested_document)
       = [None, Some ''Nested'']"
    by code_simp
  have i: "map snd (filter accepted_block (positions example_nested_document)) = [0, 1]"
    by code_simp
  from c t i sample_title[OF c] show ?thesis by blast
qed

section \<open>Remapping the package's own name\<close>

text \<open>
  C7, amended. Let the importing directory not be named like a member of
  \<open>Object.prototype\<close>, and let the cache hold nothing for it, or what the walk finds.
  When no manifest is found the specifier is returned unchanged. When the nearest
  manifest declares the name \<open>name\<close>: a specifier equal to the name becomes the
  relative path from the importing directory to the manifest's directory (\<open>.\<close> when
  they are the same) followed by \<open>/\<close>; a specifier that begins with the name and
  \<open>/\<close> has the name replaced by that relative path and keeps the rest; any other
  specifier is returned unchanged.
\<close>

theorem resolveModuleSource_remap:
  assumes "inherited (path_dirname filename) = None"
    and "packageJSONCache st (path_dirname filename) = None
         \<or> packageJSONCache st (path_dirname filename)
             = Some (findPackageJSON e (path_dirname filename))"
  shows "(findPackageJSON e (path_dirname filename) = None \<longrightarrow>
            fst (resolveModuleSource e st source filename) = Inr source)
       \<and> (findPackageJSON e (path_dirname filename)
            = Some \<lparr>pkg_name = Some name, pkg_path = Some p\<rparr> \<longrightarrow>
            (source = name \<longrightarrow>
               fst (resolveModuleSource e st source filename)
                 = Inr (or_dot (path_relative (cwd e) (path_dirname filename) (path_dirname p))
                        @ ''/''))
          \<and> (source = name @ ''/'' @ rest \<longrightarrow>
               fst (resolveModuleSource e st source filename)
                 = Inr (or_dot (path_relative (cwd e) (path_dirname filename) (path_dirname p))
                        @ ''/'' @ rest))
          \<and> (source \<noteq> name \<and> \<not> (\<exists>r. source = name @ ''/'' @ r) \<longrightarrow>
               fst (resolveModuleSource e st source filename) = Inr source))
       \<and> or_dot [] = ''.'' \<and> (x \<noteq> [] \<longrightarrow> or_dot x = x)"
proof -
  have pre: "take (length (name @ ''/'')) source = name @ ''/'' \<longleftrightarrow> (\<exists>r. source = name @ ''/'' @ r)"
    by (metis append.assoc append_eq_conv_conj)
  show ?thesis
    unfolding resolve_value[OF assms]
    using pre by (auto simp: name_slash_def or_dot_def)
qed

theorem resolveModuleSource_remap_witness:
  "fst (resolveModuleSource example_env \<lparr>packageJSONCache = Map.empty, walks = []\<rparr>
          ''foo'' ''/pkg/docs/readme'') = Inr ''../''
   \<and> fst (resolveModuleSource example_env \<lparr>packageJSONCache = Map.empty, walks = []\<rparr>
          ''foo/sub'' ''/pkg/docs/readme'') = Inr ''../sub''
   \<and> fst (resolveModuleSource example_env \<lparr>packageJSONCache = Map.empty, walks = []\<rparr>
          ''foobar'' ''/pkg/docs/readme'') = Inr ''foobar''
   \<and> fst (resolveModuleSource example_env \<lparr>packageJSONCache = Map.empty, walks = []\<rparr>
          ''foo'' ''/pkg/readme'') = Inr ''./''
   \<and> fst (resolveModuleSource example_env \<lparr>packageJSONCache = Map.empty, walks = []\<rparr>
          ''foo'' ''/tmp/readme'') = Inr ''foo''"
proof -
  have d: "path_dirname ''/pkg/docs/readme'' = ''/pkg/docs''" "path_dirname ''/pkg/readme'' = ''/pkg''"
    "path_dirname ''/tmp/readme'' = ''/tmp''" "path_dirname ''/pkg/package.json'' = ''/pkg''"
    by code_simp+
  have i: "inherited ''/pkg/docs'' = None" "inherited ''/pkg'' = None" "inherited ''/tmp'' = None"
    by code_simp+
  have m: "findPackageJSON example_env ''/pkg/docs''
             = Some \<lparr>pkg_name = Some ''foo'', pkg_path = Some ''/pkg/package.json''\<rparr>"
    "findPackageJSON example_env ''/pkg''
             = Some \<lparr>pkg_name = Some ''foo'', pkg_path = Some ''/pkg/package.json''\<rparr>"
    "findPackageJSON example_env ''/tmp'' = None"
    by (simp_all add: example_env_def example_manifests_def)
  have r: "path_relative (cwd example_env) ''/pkg/docs'' ''/pkg'' = ''..''"
    "path_relative (cwd example_env) ''/pkg'' ''/pkg'' = []"
    by code_simp+
  let ?st = "\<lparr>packageJSONCache = Map.empty, walks = []\<rparr>"
  from resolveModuleSource_remap[where e = example_env and st = ?st
      and filename = "''/pkg/docs/readme''" and source = "''foo''" and name = "''foo''"
      and p = "''/pkg/package.json''"]
    resolveModuleSource_remap[where e = example_env and st = ?st
      and filename = "''/pkg/docs/readme''" and source = "''foo/sub''" and name = "''foo''"
      and p = "''/pkg/package.json''" and rest = "''sub''"]
    resolveModuleSource_remap[where e = example_env and st = ?st
      and filename = "''/pkg/docs/readme''" and source = "''foobar''" and name = "''foo''"
      and p = "''/pkg/package.json''"]
    resolveModuleSource_remap[where e = example_env and st = ?st
      and filename = "''/pkg/readme''" and source = "''foo''" and name = "''foo''"
      and p = "''/pkg/package.json''" and x = "[]"]
    resolveModuleSource_remap[where e = example_env and st = ?st
      and filename = "''/tmp/readme''" and source = "''foo''"]
  show ?thesis by (simp add: d i m r or_dot_def)
qed

text \<open>
  The specifier \<open>foo\<close> from \<open>/pkg/docs\<close>, with the manifest of \<open>foo\<close> in \<open>/pkg\<close>,
  becomes \<open>../\<close>, which is not the relative path \<open>..\<close>.
\<close>

theorem remap_trailing_slash_counterexample:
  "fst (resolveModuleSource example_env \<lparr>packageJSONCache = Map.empty, walks = []\<rparr>
          ''foo'' ''/pkg/docs/readme'')
     \<noteq> Inr (or_dot (path_relative (cwd example_env) (path_dirname ''/pkg/docs/readme'')
                     (path_dirname ''/pkg/package.json'')))
   \<and> or_dot (path_relative (cwd example_env) (path_dirname ''/pkg/docs/readme'')
                     (path_dirname ''/pkg/package.json'')) = ''..''
   \<and> fst (resolveModuleSource example_env \<lparr>packageJSONCache = Map.empty, walks = []\<rparr>
          ''foo'' ''/pkg/docs/readme'') = Inr ''../''"
  by code_simp


section \<open>One walk for each directory\<close>

text \<open>
  C10. Every compilation starts the transformation with an empty cache of its own. In
  one compilation no directory is walked twice: a walk happens only when the cache has
  no entry for the directory, and it leaves an entry, \<open>null\<close> when no manifest was
  found, so the next lookup for that directory does not walk and changes nothing.
\<close>

theorem manifest_lookup_once:
  "compile e document opts =
      (case forEach_testCase e (mdastVisitNode e (Remark_parse e document)) [] [] of
         Inl err \<Rightarrow> Inl err
       | Inr (importList, caseList) \<Rightarrow>
           (case resolve_imports e
                   (case opt_filename opts of None \<Rightarrow> ''unknown'' | Some f \<Rightarrow> f)
                   \<lparr>packageJSONCache = Map.empty, walks = []\<rparr>
                   (generate_program e opts importList caseList) of
              Inl err \<Rightarrow> Inl err
            | Inr (stmts, st') \<Rightarrow> Inr (mk Program stmts)))
   \<and> (transformFromAst e opts program = Inr (program', st) \<longrightarrow>
        distinct (walks st)
        \<and> (\<forall>d\<in>set (walks st). packageJSONCache st d = Some (findPackageJSON e d)))
   \<and> (cache_inv e st0 \<longrightarrow> cache_inv e (snd (resolveModuleSource e st0 source filename)))
   \<and> (packageJSONCache st0 (path_dirname filename) \<noteq> None \<longrightarrow>
        snd (resolveModuleSource e st0 source filename) = st0)
   \<and> (cache_get (packageJSONCache st0) (path_dirname filename) = JSUndefined
        \<and> findPackageJSON e (path_dirname filename) = None \<longrightarrow>
        packageJSONCache (snd (resolveModuleSource e st0 source filename)) (path_dirname filename)
          = Some None
        \<and> walks (snd (resolveModuleSource e st0 source filename))
          = walks st0 @ [path_dirname filename]
        \<and> snd (resolveModuleSource e (snd (resolveModuleSource e st0 source filename))
                 source' filename)
          = snd (resolveModuleSource e st0 source filename))"
proof (intro conjI impI)
  show "compile e document opts =
      (case forEach_testCase e (mdastVisitNode e (Remark_parse e document)) [] [] of
         Inl err \<Rightarrow> Inl err
       | Inr (importList, caseList) \<Rightarrow>
           (case resolve_imports e
                   (case opt_filename opts of None \<Rightarrow> ''unknown'' | Some f \<Rightarrow> f)
                   \<lparr>packageJSONCache = Map.empty, walks = []\<rparr>
                   (generate_program e opts importList caseList) of
              Inl err \<Rightarrow> Inl err
            | Inr (stmts, st') \<Rightarrow> Inr (mk Program stmts)))"
    unfolding compile_def transformFromAst_def Let_def by (rule refl)
next
  assume "transformFromAst e opts program = Inr (program', st)"
  from resolve_imports_inv[OF this[unfolded transformFromAst_def] cache_inv_empty]
  have i: "cache_inv e st" .
  then show "distinct (walks st)" by (simp add: cache_inv_def)
  from i show "\<forall>d\<in>set (walks st). packageJSONCache st d = Some (findPackageJSON e d)"
    by (simp add: cache_inv_def)
next
  assume "cache_inv e st0"
  then show "cache_inv e (snd (resolveModuleSource e st0 source filename))"
    by (rule cache_inv_step)
next
  assume "packageJSONCache st0 (path_dirname filename) \<noteq> None"
  then show "snd (resolveModuleSource e st0 source filename) = st0"
    by (auto simp: resolve_state cache_get_undefined)
next
  assume a: "cache_get (packageJSONCache st0) (path_dirname filename) = JSUndefined
        \<and> findPackageJSON e (path_dirname filename) = None"
  then show "packageJSONCache (snd (resolveModuleSource e st0 source filename)) (path_dirname filename)
          = Some None"
    by (simp add: resolve_state)
  from a show "walks (snd (resolveModuleSource e st0 source filename))
          = walks st0 @ [path_dirname filename]"
    by (simp add: resolve_state)
  from a show "snd (resolveModuleSource e (snd (resolveModuleSource e st0 source filename))
                 source' filename)
          = snd (resolveModuleSource e st0 source filename)"
    by (simp add: resolve_state cache_get_undefined)
qed

theorem manifest_lookup_once_witness:
  "(\<exists>program' st.
      transformFromAst example_env example_options
        [mk (ImportDeclaration ''foo'') [], mk (ImportDeclaration ''foo/sub'') [],
         mk (ImportDeclaration ''bar'') []] = Inr (program', st)
      \<and> program' = [mk (ImportDeclaration ''../'') [], mk (ImportDeclaration ''../sub'') [],
                     mk (ImportDeclaration ''bar'') []]
      \<and> walks st = [''/pkg/docs'']
      \<and> distinct (walks st)
      \<and> packageJSONCache st ''/pkg/docs'' = Some (findPackageJSON example_env ''/pkg/docs''))
   \<and> packageJSONCache
        (snd (resolveModuleSource example_env \<lparr>packageJSONCache = Map.empty, walks = []\<rparr>
                ''foo'' ''/tmp/readme'')) ''/tmp'' = Some None
   \<and> walks (snd (resolveModuleSource example_env
               (snd (resolveModuleSource example_env
                       \<lparr>packageJSONCache = Map.empty, walks = []\<rparr> ''foo'' ''/tmp/readme''))
               ''bar'' ''/tmp/readme'')) = [''/tmp'']"
proof -
  have "case transformFromAst example_env example_options
        [mk (ImportDeclaration ''foo'') [], mk (ImportDeclaration ''foo/sub'') [],
         mk (ImportDeclaration ''bar'') []] of
          Inl err \<Rightarrow> False
        | Inr (program', st) \<Rightarrow>
            program' = [mk (ImportDeclaration ''../'') [], mk (ImportDeclaration ''../sub'') [],
                        mk (ImportDeclaration ''bar'') []]
            \<and> walks st = [''/pkg/docs'']"
    by code_simp
  then obtain program' st where
    t: "transformFromAst example_env example_options
        [mk (ImportDeclaration ''foo'') [], mk (ImportDeclaration ''foo/sub'') [],
         mk (ImportDeclaration ''bar'') []] = Inr (program', st)"
    and p: "program' = [mk (ImportDeclaration ''../'') [], mk (ImportDeclaration ''../sub'') [],
                        mk (ImportDeclaration ''bar'') []]"
    and w: "walks st = [''/pkg/docs'']"
    by (auto split: sum.splits)
  let ?st0 = "\<lparr>packageJSONCache = Map.empty, walks = []\<rparr>"
  have d: "path_dirname ''/tmp/readme'' = ''/tmp''" by code_simp
  have u: "cache_get (packageJSONCache ?st0) ''/tmp'' = JSUndefined" by code_simp
  have n: "findPackageJSON example_env ''/tmp'' = None"
    by (simp add: example_env_def example_manifests_def)
  note inst = manifest_lookup_once[where e = example_env and opts = example_options
      and program = "[mk (ImportDeclaration ''foo'') [], mk (ImportDeclaration ''foo/sub'') [],
         mk (ImportDeclaration ''bar'') []]" and program' = program' and st = st
      and ?st0.0 = "\<lparr>packageJSONCache = Map.empty, walks = []\<rparr>" and filename = "''/tmp/readme''" and source = "''foo''"
      and source' = "''bar''"]
  from inst t w have 1: "distinct (walks st)"
    and 2: "packageJSONCache st ''/pkg/docs'' = Some (findPackageJSON example_env ''/pkg/docs'')"
    by simp_all
  from inst u n d have 3: "packageJSONCache (snd (resolveModuleSource example_env ?st0
                ''foo'' ''/tmp/readme'')) ''/tmp'' = Some None"
    and 4: "walks (snd (resolveModuleSource example_env
               (snd (resolveModuleSource example_env ?st0 ''foo'' ''/tmp/readme''))
               ''bar'' ''/tmp/readme'')) = [''/tmp'']"
    by simp_all
  from t p w 1 2 3 4 show ?thesis by blast
qed


end
